theory Spec2Isabelle
  imports Main "HOL-Library.AList"
begin

section \<open>The websocket hub of package discord\<close>

text \<open>
  A shallow embedding of the hub in the file that declares \<^verbatim>\<open>HandleWebSocket\<close>:
  the registry \<^verbatim>\<open>clients.m\<close>, the per-connection \<^verbatim>\<open>Client\<close> with its buffered
  \<^verbatim>\<open>Send\<close> channel, the two broadcast functions and the persistence path.

  Go pointers \<^verbatim>\<open>*Client\<close> are addresses into an explicit heap, so that two clients of the
  same user are different objects. Each modelled step runs atomically on the hub state,
  and a scenario with several connections is a sequence of such steps. The room
  broadcast is two steps, because the source releases the registry's read lock between
  its snapshot and its sends: what other connections do in between, and the order in
  which the runtime visits the snapshot, are arguments of the model. A Go panic is a
  result of its own, carrying the state reached when it was raised.
\<close>

subsection \<open>Constants\<close>

text \<open>\<^verbatim>\<open>time.Duration\<close> counts nanoseconds; none of the products below leaves int64.\<close>

definition Second :: int where
  "Second = 1000000000"

definition writeTimeout :: int where
  "writeTimeout = 10 * Second"

definition pongWait :: int where
  "pongWait = 60 * Second"

definition pingPeriod :: int where
  "pingPeriod = 30 * Second"

definition sendQueueSize :: nat where
  "sendQueueSize = 256"

subsection \<open>Data\<close>

text \<open>
  Field names are the source's; where two structs share a name the later ones carry a
  prefix (\<open>M\<close> for \<^verbatim>\<open>models.Message\<close>, \<open>In\<close> for \<^verbatim>\<open>models.IncomingWSMessage\<close>).
\<close>

record IncomingWSMessage =
  Type :: string
  InChatID :: string
  InContent :: string
  MediaURL :: string
  MediaType :: string
  Online :: bool
  ClientID :: string

record Chat =
  ChatID :: string
  Participants :: "string list"
  CreatedAt :: int
  UpdatedAt :: int
  EntityType :: string
  EntityId :: string

record Media =
  URL :: string
  MType :: string

text \<open>
  Of \<^verbatim>\<open>models.Message\<close> the fields that \<^verbatim>\<open>persistMessage\<close> sets; the others keep
  their zero value. An \<^verbatim>\<open>ObjectID\<close> is a number.
\<close>

record Message =
  ID :: nat
  MChatID :: string
  MUserID :: string
  MContent :: string
  MMedia :: "Media option"
  MCreatedAt :: int

text \<open>
  The three payloads built at the dispatch sites, each a \<^verbatim>\<open>map[string]interface{}\<close> in
  the source: \<open>MessagePayload id sender content createdAt media chatid clientId\<close>
  (\<open>clientId\<close> present only when the envelope carried one),
  \<open>TypingPayload sender chatid\<close> and \<open>PresencePayload from online\<close>.
\<close>

datatype payload =
    MessagePayload nat string string int "Media option" string "string option"
  | TypingPayload string string
  | PresencePayload string bool

text \<open>A buffered channel: its pending elements, its capacity, whether it was closed.\<close>

record chan =
  buf :: "payload list"
  cap :: nat
  closed :: bool

text \<open>The transport: whether it was closed, its deadlines, the frames written to it.\<close>

record conn =
  conn_closed :: bool
  readDeadline :: int
  writeDeadline :: int
  written :: "payload list"

record Client =
  UserID :: string
  Conn :: conn
  Send :: chan

datatype logent =
    WSConnected string
  | WSDisconnected string
  | WSReadError string
  | WSWriteError string
  | WSUnknownType string string
  | WSMembershipCheckFailed string
  | WSUnauthorizedChatAccess string string
  | WSPersistError string
  | WSBroadcastChatNotFound string
  | WSDroppingMessage string
  | WSDroppingGlobalMessage string

text \<open>
  The hub: \<^verbatim>\<open>clients.m\<close> as an association list from userID to client address (kept
  with distinct keys by \<open>AList.update\<close> and \<open>AList.delete\<close>), the heap of clients, the two
  collections of the store, and what the run has logged. The store's calls can fail; the
  four flags say which fail in this state. \<open>clock\<close> is what \<^verbatim>\<open>time.Now()\<close> returns.
\<close>

record hub =
  clients_m :: "(string \<times> nat) list"
  heap :: "nat \<Rightarrow> Client"
  nextClient :: nat
  MereCollection :: "Chat list"
  MessagesCollection :: "Message list"
  nextObjectID :: nat
  countFails :: bool
  findFails :: bool
  insertFails :: bool
  updateFails :: bool
  clock :: int
  logs :: "logent list"

datatype panic = SendOnClosedChannel | CloseOfClosedChannel

datatype outcome = Return hub | Panic panic hub

datatype dberror = ErrStore | ErrNoDocuments | ErrEmptyContentAndMedia

definition logPrint :: "logent \<Rightarrow> hub \<Rightarrow> hub" where
  "logPrint e st = st\<lparr>logs := logs st @ [e]\<rparr>"

subsection \<open>Channels\<close>

text \<open>
  \<^verbatim>\<open>select { case ch <- p: default: }\<close>: a send on a closed channel panics; otherwise the
  element is buffered when there is room, and the default branch is taken when there is
  none.
\<close>

datatype send_result = Sent chan | Full | SendPanics

definition trySend :: "chan \<Rightarrow> payload \<Rightarrow> send_result" where
  "trySend ch p =
     (if closed ch then SendPanics
      else if length (buf ch) < cap ch then Sent (ch\<lparr>buf := buf ch @ [p]\<rparr>)
      else Full)"

definition setSend :: "nat \<Rightarrow> chan \<Rightarrow> hub \<Rightarrow> hub" where
  "setSend a ch st = st\<lparr>heap := (heap st)(a := (heap st a)\<lparr>Send := ch\<rparr>)\<rparr>"

definition setConn :: "nat \<Rightarrow> conn \<Rightarrow> hub \<Rightarrow> hub" where
  "setConn a c st = st\<lparr>heap := (heap st)(a := (heap st a)\<lparr>Conn := c\<rparr>)\<rparr>"

definition connClose :: "nat \<Rightarrow> hub \<Rightarrow> hub" where
  "connClose a st = setConn a ((Conn (heap st a))\<lparr>conn_closed := True\<rparr>) st"

subsection \<open>The registry and the life of a connection\<close>

definition lookup :: "hub \<Rightarrow> string \<Rightarrow> nat option" where
  "lookup st userID = map_of (clients_m st) userID"

text \<open>
  Lines 74 to 83 of \<^verbatim>\<open>HandleWebSocket\<close>: a new client with an empty queue of
  \<open>sendQueueSize\<close> is allocated and stored under \<open>userID\<close>, over whatever was there.
  Nothing is read from the registry and nothing else is touched. The result is the new
  client's address.
\<close>

definition register :: "string \<Rightarrow> hub \<Rightarrow> nat \<times> hub" where
  "register userID st =
     (let a = nextClient st;
          client = \<lparr>UserID = userID,
                    Conn = \<lparr>conn_closed = False, readDeadline = 0, writeDeadline = 0,
                            written = []\<rparr>,
                    Send = \<lparr>buf = [], cap = sendQueueSize, closed = False\<rparr>\<rparr>
      in (a, st\<lparr>heap := (heap st)(a := client),
                nextClient := Suc a,
                clients_m := AList.update userID a (clients_m st)\<rparr>))"

text \<open>
  The deferred function of \<^verbatim>\<open>HandleWebSocket\<close> (lines 87 to 99), run for the
  connection whose client is at address \<open>a\<close> and whose user is \<open>userID\<close>: whatever client
  the registry holds for \<open>userID\<close> is deleted and its queue closed (closing a closed
  channel panics), then this connection's transport is closed. The channel \<^verbatim>\<open>done\<close>,
  closed first, only stops the heartbeat goroutine and is left out.
\<close>

definition cleanup :: "string \<Rightarrow> nat \<Rightarrow> hub \<Rightarrow> outcome" where
  "cleanup userID a st =
     (case lookup st userID of
        Some c \<Rightarrow>
          (let st1 = st\<lparr>clients_m := AList.delete userID (clients_m st)\<rparr> in
           if closed (Send (heap st1 c)) then Panic CloseOfClosedChannel st1
           else Return (logPrint (WSDisconnected userID)
                  (connClose a (setSend c ((Send (heap st1 c))\<lparr>closed := True\<rparr>) st1))))
      | None \<Rightarrow> Return (logPrint (WSDisconnected userID) (connClose a st)))"

text \<open>Whether the session at an address has been terminated: transport or queue closed.\<close>

definition terminated :: "hub \<Rightarrow> nat \<Rightarrow> bool" where
  "terminated st a = (conn_closed (Conn (heap st a)) \<or> closed (Send (heap st a)))"

subsection \<open>The store\<close>

text \<open>
  The four calls the hub makes on the document store. \<^verbatim>\<open>CountDocuments\<close> with the
  filter \<^verbatim>\<open>{chatid: cid, participants: userID}\<close> counts the chats of that id whose
  participant array holds the user; \<^verbatim>\<open>FindOne\<close> with \<^verbatim>\<open>{chatid: cid}\<close> decodes the
  first chat of that id; \<^verbatim>\<open>InsertOne\<close> stores the message under a fresh identifier;
  \<^verbatim>\<open>UpdateOne\<close> sets \<^verbatim>\<open>updatedAt\<close> on the first chat of that id.
\<close>

definition CountDocuments :: "hub \<Rightarrow> string \<Rightarrow> string \<Rightarrow> dberror + nat" where
  "CountDocuments st cid userID =
     (if countFails st then Inl ErrStore
      else Inr (length (filter (\<lambda>c. ChatID c = cid \<and> userID \<in> set (Participants c))
                          (MereCollection st))))"

definition FindOne :: "hub \<Rightarrow> string \<Rightarrow> dberror + Chat" where
  "FindOne st cid =
     (if findFails st then Inl ErrStore
      else case find (\<lambda>c. ChatID c = cid) (MereCollection st) of
             None \<Rightarrow> Inl ErrNoDocuments
           | Some chat \<Rightarrow> Inr chat)"

definition InsertOne :: "Message \<Rightarrow> hub \<Rightarrow> (dberror + nat) \<times> hub" where
  "InsertOne msg st =
     (if insertFails st then (Inl ErrStore, st)
      else (let oid = nextObjectID st
            in (Inr oid, st\<lparr>MessagesCollection := MessagesCollection st @ [msg\<lparr>ID := oid\<rparr>],
                           nextObjectID := Suc oid\<rparr>)))"

fun setUpdatedAt :: "string \<Rightarrow> int \<Rightarrow> Chat list \<Rightarrow> Chat list" where
  "setUpdatedAt chatID t [] = []"
| "setUpdatedAt chatID t (c # cs) =
     (if ChatID c = chatID then c\<lparr>UpdatedAt := t\<rparr> # cs else c # setUpdatedAt chatID t cs)"

definition UpdateOne :: "string \<Rightarrow> hub \<Rightarrow> (dberror + unit) \<times> hub" where
  "UpdateOne chatID st =
     (if updateFails st then (Inl ErrStore, st)
      else (Inr (), st\<lparr>MereCollection := setUpdatedAt chatID (clock st) (MereCollection st)\<rparr>))"

subsection \<open>Persistence\<close>

definition persistMessage ::
  "string \<Rightarrow> string \<Rightarrow> string \<Rightarrow> string \<Rightarrow> string \<Rightarrow> hub \<Rightarrow> (dberror + Message) \<times> hub" where
  "persistMessage chatID sender content mediaURL mediaType st =
     (if content = [] \<and> mediaURL = [] then (Inl ErrEmptyContentAndMedia, st)
      else
        (let media = (if mediaURL \<noteq> [] \<and> mediaType \<noteq> []
                      then Some \<lparr>URL = mediaURL, MType = mediaType\<rparr> else None);
             msg = \<lparr>ID = 0, MChatID = chatID, MUserID = sender, MContent = content,
                    MMedia = media, MCreatedAt = clock st\<rparr>
         in case InsertOne msg st of
              (Inl err, st1) \<Rightarrow> (Inl err, st1)
            | (Inr oid, st1) \<Rightarrow> (Inr (msg\<lparr>ID := oid\<rparr>), snd (UpdateOne chatID st1))))"

subsection \<open>Broadcasting\<close>

text \<open>
  The first loop of \<^verbatim>\<open>broadcastToChat\<close>: the map \<^verbatim>\<open>targets\<close>, from each participant that
  has a registered client to that client. A participant listed twice is one key.
\<close>

definition resolveTargets :: "hub \<Rightarrow> string list \<Rightarrow> (string \<times> nat) list" where
  "resolveTargets st ps =
     fold (\<lambda>p targets. case lookup st p of
                          Some c \<Rightarrow> AList.update p c targets
                        | None \<Rightarrow> targets) ps []"

text \<open>
  Lines 215 to 229 of \<^verbatim>\<open>broadcastToChat\<close>: the room is fetched and, under the read
  lock, the targets are resolved. The lock is released when this step ends.
\<close>

definition snapshotTargets :: "hub \<Rightarrow> string \<Rightarrow> dberror + (string \<times> nat) list" where
  "snapshotTargets st chatHex =
     (case FindOne st chatHex of
        Inl err \<Rightarrow> Inl err
      | Inr chat \<Rightarrow> Inr (resolveTargets st (Participants chat)))"

text \<open>
  Go leaves the order in which \<^verbatim>\<open>range\<close> visits a map open. The runtime's choice is the
  list \<open>picks\<close>: each pick takes one of the entries not yet visited, by its position
  among them; when the picks run out the remaining entries come in list order. Every
  result is an arrangement of the entries, and every arrangement of a map's entries,
  which are distinct, is the result of some picks (lemmas \<open>rangeOrder_arrangement\<close> and \<open>rangeOrder_any\<close>).
\<close>

fun rangeOrder :: "nat list \<Rightarrow> 'a list \<Rightarrow> 'a list" where
  "rangeOrder [] xs = xs"
| "rangeOrder (i # picks) xs =
     (if xs = [] then []
      else (let j = i mod length xs
            in xs ! j # rangeOrder picks (take j xs @ drop (Suc j) xs)))"

text \<open>
  The send loop (lines 231 to 239), over the targets in the order they are visited.
\<close>

fun sendTargets :: "(string \<times> nat) list \<Rightarrow> payload \<Rightarrow> hub \<Rightarrow> outcome" where
  "sendTargets [] p st = Return st"
| "sendTargets ((uid, client) # ts) p st =
     (case trySend (Send (heap st client)) p of
        SendPanics \<Rightarrow> Panic SendOnClosedChannel st
      | Sent ch \<Rightarrow> sendTargets ts p (setSend client ch st)
      | Full \<Rightarrow> sendTargets ts p (logPrint (WSDroppingMessage uid) st))"

text \<open>
  The deferred functions of other connections (user and client of each) that run to
  their end, one after the other.
\<close>

fun teardownAll :: "(string \<times> nat) list \<Rightarrow> hub \<Rightarrow> outcome" where
  "teardownAll [] st = Return st"
| "teardownAll ((userID, a) # downs) st =
     (case cleanup userID a st of
        Panic e st1 \<Rightarrow> Panic e st1
      | Return st1 \<Rightarrow> teardownAll downs st1)"

text \<open>
  \<^verbatim>\<open>broadcastToChat\<close> as it runs among other connections: the snapshot is taken, the
  connections \<open>downs\<close> end and run their deferred functions after the read lock is
  released, then the send loop visits the snapshot in the order the runtime picks.
\<close>

definition broadcastToChatAmid ::
  "string \<Rightarrow> payload \<Rightarrow> (string \<times> nat) list \<Rightarrow> nat list \<Rightarrow> hub \<Rightarrow> outcome" where
  "broadcastToChatAmid chatHex p downs picks st =
     (case snapshotTargets st chatHex of
        Inl err \<Rightarrow> Return (logPrint (WSBroadcastChatNotFound chatHex) st)
      | Inr targets \<Rightarrow>
          (case teardownAll downs st of
             Panic e st1 \<Rightarrow> Panic e st1
           | Return st1 \<Rightarrow> sendTargets (rangeOrder picks targets) p st1))"

text \<open>
  The same with no other connection ending in between and the snapshot visited in list
  order. This is the run that the dispatch of one envelope below stands on.
\<close>

definition broadcastToChat :: "string \<Rightarrow> payload \<Rightarrow> hub \<Rightarrow> outcome" where
  "broadcastToChat chatHex p st = broadcastToChatAmid chatHex p [] [] st"

text \<open>
  \<^verbatim>\<open>broadcastGlobal\<close> has the same two phases (the read lock is released at line 248);
  the run modelled is again the one with nothing in between and list order.
\<close>

fun sendConns :: "nat list \<Rightarrow> payload \<Rightarrow> hub \<Rightarrow> outcome" where
  "sendConns [] p st = Return st"
| "sendConns (client # cs) p st =
     (case trySend (Send (heap st client)) p of
        SendPanics \<Rightarrow> Panic SendOnClosedChannel st
      | Sent ch \<Rightarrow> sendConns cs p (setSend client ch st)
      | Full \<Rightarrow> sendConns cs p
                  (logPrint (WSDroppingGlobalMessage (UserID (heap st client))) st))"

definition broadcastGlobal :: "payload \<Rightarrow> hub \<Rightarrow> outcome" where
  "broadcastGlobal p st = sendConns (map snd (clients_m st)) p st"

subsection \<open>Inbound envelopes\<close>

definition handleIncomingMessage :: "nat \<Rightarrow> IncomingWSMessage \<Rightarrow> hub \<Rightarrow> outcome" where
  "handleIncomingMessage client inm st =
     (let cid = InChatID inm; userID = UserID (heap st client) in
      case CountDocuments st cid userID of
        Inl err \<Rightarrow> Return (logPrint (WSMembershipCheckFailed userID) st)
      | Inr count \<Rightarrow>
          if count = 0 then Return (logPrint (WSUnauthorizedChatAccess userID cid) st)
          else
            (case persistMessage cid userID (InContent inm) (MediaURL inm) (MediaType inm) st of
               (Inl err, st1) \<Rightarrow> Return (logPrint (WSPersistError userID) st1)
             | (Inr msg, st1) \<Rightarrow>
                 broadcastToChat cid
                   (MessagePayload (ID msg) (MUserID msg) (MContent msg) (MCreatedAt msg)
                      (MMedia msg) (MChatID msg)
                      (if ClientID inm \<noteq> [] then Some (ClientID inm) else None))
                   st1))"

text \<open>The switch of the reader loop (lines 151 to 168).\<close>

definition dispatch :: "nat \<Rightarrow> IncomingWSMessage \<Rightarrow> hub \<Rightarrow> outcome" where
  "dispatch client inm st =
     (let userID = UserID (heap st client) in
      if Type inm = ''message'' then handleIncomingMessage client inm st
      else if Type inm = ''typing'' then
        broadcastToChat (InChatID inm) (TypingPayload userID (InChatID inm)) st
      else if Type inm = ''presence'' then
        broadcastGlobal (PresencePayload userID (Online inm)) st
      else Return (logPrint (WSUnknownType userID (Type inm)) st))"

text \<open>
  The reader loop over what \<^verbatim>\<open>ReadJSON\<close> returns, call after call: \<open>Some\<close> a decoded
  envelope, \<open>None\<close> an error. The loop ends at the first error; when the list is used up
  the read fails too (the deadline lapses or the peer is gone).
\<close>

fun readerLoop :: "nat \<Rightarrow> IncomingWSMessage option list \<Rightarrow> hub \<Rightarrow> outcome" where
  "readerLoop client [] st = Return (logPrint (WSReadError (UserID (heap st client))) st)"
| "readerLoop client (None # rest) st =
     Return (logPrint (WSReadError (UserID (heap st client))) st)"
| "readerLoop client (Some inm # rest) st =
     (case dispatch client inm st of
        Panic e st1 \<Rightarrow> Panic e st1
      | Return st1 \<Rightarrow> readerLoop client rest st1)"

subsection \<open>Deadlines\<close>

text \<open>
  Line 102 and the pong handler (line 105) both set the read deadline to now plus
  \<open>pongWait\<close>. The writer goroutine takes one frame off the queue, sets the write
  deadline to now plus \<open>writeTimeout\<close> and writes (\<open>ok\<close> says whether the write succeeds;
  on failure the transport is closed). The heartbeat does the same for a ping, whose
  own deadline argument is now plus \<open>writeTimeout\<close> as well.
\<close>

definition setReadDeadline :: "nat \<Rightarrow> int \<Rightarrow> hub \<Rightarrow> hub" where
  "setReadDeadline a t st = setConn a ((Conn (heap st a))\<lparr>readDeadline := t\<rparr>) st"

definition setWriteDeadline :: "nat \<Rightarrow> int \<Rightarrow> hub \<Rightarrow> hub" where
  "setWriteDeadline a t st = setConn a ((Conn (heap st a))\<lparr>writeDeadline := t\<rparr>) st"

definition pongHandler :: "nat \<Rightarrow> hub \<Rightarrow> hub" where
  "pongHandler a st = setReadDeadline a (clock st + pongWait) st"

definition writerStep :: "nat \<Rightarrow> bool \<Rightarrow> hub \<Rightarrow> hub" where
  "writerStep a ok st =
     (case buf (Send (heap st a)) of
        [] \<Rightarrow> st
      | msg # rest \<Rightarrow>
          (let st1 = setSend a ((Send (heap st a))\<lparr>buf := rest\<rparr>) st;
               st2 = setWriteDeadline a (clock st1 + writeTimeout) st1
           in if ok then setConn a ((Conn (heap st2 a))\<lparr>written := written (Conn (heap st2 a)) @ [msg]\<rparr>) st2
              else connClose a (logPrint (WSWriteError (UserID (heap st2 a))) st2)))"

definition pingDeadline :: "hub \<Rightarrow> int" where
  "pingDeadline st = clock st + writeTimeout"

definition heartbeatTick :: "nat \<Rightarrow> bool \<Rightarrow> hub \<Rightarrow> hub" where
  "heartbeatTick a ok st =
     (let st1 = setWriteDeadline a (clock st + writeTimeout) st
      in if ok then st1 else connClose a st1)"

text \<open>
  \<^verbatim>\<open>HandleWebSocket\<close> from the point where the token is validated and the transport
  upgraded, to its return: the client is registered, the read deadline set, the reader
  loop run over the reads, and the deferred function run when the loop ends, also when
  it ends in a panic.
\<close>

definition serveConn :: "string \<Rightarrow> IncomingWSMessage option list \<Rightarrow> hub \<Rightarrow> outcome" where
  "serveConn userID reads st =
     (let (client, st1) = register userID (logPrint (WSConnected userID) st);
          st2 = setReadDeadline client (clock st1 + pongWait) st1
      in case readerLoop client reads st2 of
           Return st3 \<Rightarrow> cleanup userID client st3
         | Panic e st3 \<Rightarrow>
             (case cleanup userID client st3 of
                Return st4 \<Rightarrow> Panic e st4
              | Panic e' st4 \<Rightarrow> Panic e' st4))"

subsection \<open>Observations\<close>

text \<open>
  What the properties below read off a state: the pending frames of a client's queue,
  whether the queue is at capacity, and a client with one more frame queued.
\<close>

definition queue :: "hub \<Rightarrow> nat \<Rightarrow> payload list" where
  "queue st a = buf (Send (heap st a))"

definition isFull :: "hub \<Rightarrow> nat \<Rightarrow> bool" where
  "isFull st a = (cap (Send (heap st a)) \<le> length (queue st a))"

definition enqueue :: "payload \<Rightarrow> Client \<Rightarrow> Client" where
  "enqueue p c = c\<lparr>Send := (Send c)\<lparr>buf := buf (Send c) @ [p]\<rparr>\<rparr>"

subsection \<open>The registry invariant\<close>

text \<open>
  What registration and teardown keep true of the registry when each runs as one step:
  no user has two entries, no client is stored under two users, and every stored client
  was allocated and has an open queue.
\<close>

definition registryOK :: "hub \<Rightarrow> bool" where
  "registryOK st =
     (distinct (map fst (clients_m st)) \<and> distinct (map snd (clients_m st)) \<and>
      list_all (\<lambda>(u, a). a < nextClient st \<and> \<not> closed (Send (heap st a))) (clients_m st))"

subsection \<open>Example states\<close>

text \<open>
  An empty hub; a hub in which \<open>u1\<close> and \<open>u2\<close> have connected (clients 0 and 1), room
  \<open>c1\<close> lists \<open>u1\<close>, \<open>u2\<close> and \<open>u3\<close> and room \<open>c2\<close> lists \<open>u2\<close> alone; and the same hub with
  the queue of \<open>u2\<close> filled to capacity. Then one envelope of each kind.
\<close>

definition zeroClient :: Client where
  "zeroClient = \<lparr>UserID = [],
                  Conn = \<lparr>conn_closed = False, readDeadline = 0, writeDeadline = 0, written = []\<rparr>,
                  Send = \<lparr>buf = [], cap = 0, closed = False\<rparr>\<rparr>"

definition emptyHub :: hub where
  "emptyHub = \<lparr>clients_m = [], heap = (\<lambda>_. zeroClient), nextClient = 0,
               MereCollection = [], MessagesCollection = [], nextObjectID = 1,
               countFails = False, findFails = False, insertFails = False,
               updateFails = False, clock = 0, logs = []\<rparr>"

definition roomC1 :: Chat where
  "roomC1 = \<lparr>ChatID = ''c1'', Participants = [''u1'', ''u2'', ''u3''], CreatedAt = 0,
             UpdatedAt = 0, EntityType = [], EntityId = []\<rparr>"

definition roomC2 :: Chat where
  "roomC2 = \<lparr>ChatID = ''c2'', Participants = [''u2''], CreatedAt = 0,
             UpdatedAt = 0, EntityType = [], EntityId = []\<rparr>"

definition exampleHub :: hub where
  "exampleHub =
     (snd (register ''u2'' (snd (register ''u1'' emptyHub))))
       \<lparr>MereCollection := [roomC1, roomC2]\<rparr>"

definition backlog :: "payload list" where
  "backlog = replicate sendQueueSize (PresencePayload ''u9'' True)"

definition congestedHub :: hub where
  "congestedHub = setSend 1 \<lparr>buf = backlog, cap = sendQueueSize, closed = False\<rparr> exampleHub"

definition envelope :: "string \<Rightarrow> string \<Rightarrow> string \<Rightarrow> IncomingWSMessage" where
  "envelope ty chat content =
     \<lparr>Type = ty, InChatID = chat, InContent = content, MediaURL = [], MediaType = [],
      Online = True, ClientID = []\<rparr>"

section \<open>Properties\<close>

subsection \<open>The send loop and the target map\<close>

lemma broadcastToChat_eq:
  "broadcastToChat chatHex p st =
     (case FindOne st chatHex of
        Inl err \<Rightarrow> Return (logPrint (WSBroadcastChatNotFound chatHex) st)
      | Inr chat \<Rightarrow> sendTargets (resolveTargets st (Participants chat)) p st)"
  by (simp add: broadcastToChat_def broadcastToChatAmid_def snapshotTargets_def
      split: sum.splits)

lemma sendTargets_effect:
  "distinct (map snd ts) \<Longrightarrow> \<forall>(u, a) \<in> set ts. \<not> closed (Send (heap st a)) \<Longrightarrow>
   sendTargets ts p st =
     Return (st\<lparr>heap := (\<lambda>a. if a \<in> snd ` set ts \<and> \<not> isFull st a then enqueue p (heap st a) else heap st a),
               logs := logs st @ map (\<lambda>(u, a). WSDroppingMessage u) (filter (\<lambda>(u, a). isFull st a) ts)\<rparr>)"
proof (induction ts arbitrary: st)
  case Nil
  then show ?case by simp
next
  case (Cons t ts)
  obtain u a where t: "t = (u, a)" by (cases t)
  from Cons.prems t have open_a: "\<not> closed (Send (heap st a))" by simp
  from Cons.prems t have notin: "a \<notin> snd ` set ts" and dist: "distinct (map snd ts)" by auto
  show ?case
  proof (cases "isFull st a")
    case True
    let ?st1 = "logPrint (WSDroppingMessage u) st"
    have step: "sendTargets (t # ts) p st = sendTargets ts p ?st1"
      using True open_a t by (simp add: trySend_def isFull_def queue_def)
    have h: "heap ?st1 = heap st" by (simp add: logPrint_def)
    have pre: "\<forall>(u, a) \<in> set ts. \<not> closed (Send (heap ?st1 a))"
      using Cons.prems(2) h by auto
    have full: "isFull ?st1 = isFull st" by (simp add: isFull_def queue_def h fun_eq_iff)
    show ?thesis
      unfolding step Cons.IH[OF dist pre] full h
      using True t notin by (auto simp: logPrint_def fun_eq_iff)
  next
    case False
    let ?st1 = "setSend a ((Send (heap st a))\<lparr>buf := buf (Send (heap st a)) @ [p]\<rparr>) st"
    have step: "sendTargets (t # ts) p st = sendTargets ts p ?st1"
      using False open_a t by (simp add: trySend_def isFull_def queue_def)
    have h: "\<And>b. b \<noteq> a \<Longrightarrow> heap ?st1 b = heap st b" by (simp add: setSend_def)
    have pre: "\<forall>(u, a) \<in> set ts. \<not> closed (Send (heap ?st1 a))"
      using Cons.prems(2) by (auto simp: setSend_def)
    have full: "\<And>b. b \<in> snd ` set ts \<Longrightarrow> isFull ?st1 b = isFull st b"
      using notin by (auto simp: isFull_def queue_def setSend_def)
    have filt: "filter (\<lambda>(u, a). isFull ?st1 a) ts = filter (\<lambda>(u, a). isFull st a) ts"
      by (rule filter_cong) (auto intro!: full simp: rev_image_eqI)
    have heap_eq: "(\<lambda>b. if b \<in> snd ` set ts \<and> \<not> isFull ?st1 b then enqueue p (heap ?st1 b) else heap ?st1 b)
        = (\<lambda>b. if b \<in> snd ` set (t # ts) \<and> \<not> isFull st b then enqueue p (heap st b) else heap st b)"
    proof
      fix b
      show "(if b \<in> snd ` set ts \<and> \<not> isFull ?st1 b then enqueue p (heap ?st1 b) else heap ?st1 b)
        = (if b \<in> snd ` set (t # ts) \<and> \<not> isFull st b then enqueue p (heap st b) else heap st b)"
      proof (cases "b = a")
        case True
        then show ?thesis using notin False t by (simp add: setSend_def enqueue_def)
      next
        case neq: False
        then show ?thesis using full[of b] h[of b] t by auto
      qed
    qed
    have rest: "logs ?st1 = logs st" "?st1\<lparr>heap := H, logs := L\<rparr> = st\<lparr>heap := H, logs := L\<rparr>" for H L
      by (simp_all add: setSend_def)
    show ?thesis
      unfolding step Cons.IH[OF dist pre] filt heap_eq rest
      using False t by simp
  qed
qed

lemma resolve_fold:
  "distinct (map fst acc) \<Longrightarrow>
   distinct (map fst (fold (\<lambda>p targets. case lookup st p of
                          Some c \<Rightarrow> AList.update p c targets
                        | None \<Rightarrow> targets) ps acc)) \<and>
   map_of (fold (\<lambda>p targets. case lookup st p of
                          Some c \<Rightarrow> AList.update p c targets
                        | None \<Rightarrow> targets) ps acc) =
     (\<lambda>u. if u \<in> set ps \<and> lookup st u \<noteq> None then lookup st u else map_of acc u)"
proof (induction ps arbitrary: acc)
  case Nil
  then show ?case by simp
next
  case (Cons q ps)
  show ?case
  proof (cases "lookup st q")
    case None
    then show ?thesis using Cons.IH[OF Cons.prems] by (auto simp: fun_eq_iff)
  next
    case (Some c)
    have d: "distinct (map fst (AList.update q c acc))"
      using Cons.prems by (simp add: distinct_update)
    show ?thesis using Cons.IH[OF d] Some by (auto simp: fun_eq_iff update_conv')
  qed
qed

lemma distinct_resolveTargets: "distinct (map fst (resolveTargets st ps))"
  using resolve_fold[of "[]" st ps] by (simp add: resolveTargets_def)

lemma map_of_resolveTargets:
  "map_of (resolveTargets st ps) u = (if u \<in> set ps then lookup st u else None)"
  using resolve_fold[of "[]" st ps] by (auto simp: resolveTargets_def fun_eq_iff)

lemma set_resolveTargets:
  "set (resolveTargets st ps) = {(u, a). u \<in> set ps \<and> lookup st u = Some a}"
proof -
  have "(u, a) \<in> set (resolveTargets st ps) \<longleftrightarrow> u \<in> set ps \<and> lookup st u = Some a" for u a
    using map_of_eq_Some_iff[OF distinct_resolveTargets, of st ps u a]
    by (auto simp: map_of_resolveTargets split: if_splits)
  then show ?thesis by auto
qed

lemma count_enqueued:
  "length (filter (\<lambda>x. \<not> P x) ts) = length ts - length (filter P ts)"
  using sum_length_filter_compl[of P ts] by simp

subsection \<open>The example states, evaluated\<close>

lemma exampleHub_simps:
  "clients_m exampleHub = [(''u1'', 0), (''u2'', 1)]"
  "MereCollection exampleHub = [roomC1, roomC2]"
  "findFails exampleHub = False"
  "logs exampleHub = []"
  "heap exampleHub 0 = \<lparr>UserID = ''u1'',
       Conn = \<lparr>conn_closed = False, readDeadline = 0, writeDeadline = 0, written = []\<rparr>,
       Send = \<lparr>buf = [], cap = sendQueueSize, closed = False\<rparr>\<rparr>"
  "heap exampleHub (Suc 0) = \<lparr>UserID = ''u2'',
       Conn = \<lparr>conn_closed = False, readDeadline = 0, writeDeadline = 0, written = []\<rparr>,
       Send = \<lparr>buf = [], cap = sendQueueSize, closed = False\<rparr>\<rparr>"
  by (simp_all add: exampleHub_def register_def emptyHub_def Let_def)

lemma congestedHub_simps:
  "clients_m congestedHub = [(''u1'', 0), (''u2'', 1)]"
  "MereCollection congestedHub = [roomC1, roomC2]"
  "findFails congestedHub = False"
  "logs congestedHub = []"
  "heap congestedHub 0 = heap exampleHub 0"
  "Send (heap congestedHub (Suc 0)) = \<lparr>buf = backlog, cap = sendQueueSize, closed = False\<rparr>"
  by (simp_all add: congestedHub_def setSend_def exampleHub_simps)

lemma resolve_congested:
  "resolveTargets congestedHub (Participants roomC1) = [(''u1'', 0), (''u2'', 1)]"
  by (simp add: resolveTargets_def lookup_def congestedHub_simps roomC1_def)

subsection \<open>The registry invariant is kept, and nothing panics under it\<close>

text \<open>
  The invariant holds of the empty hub and is kept by registration, by the deferred
  teardown, by every dispatch and so by the whole of a connection, each run as one step
  with no other connection acting inside it; under it none of them panics. At the
  moment of a snapshot it gives the two side conditions of the broadcast properties
  below: the resolved targets are distinct clients, and their queues are open. It says
  nothing of a queue that is closed after the snapshot was taken.
\<close>

lemma registryOK_emptyHub: "registryOK emptyHub"
  by (simp add: registryOK_def emptyHub_def)

lemma sendTargets_returns:
  "\<forall>(u, a) \<in> set ts. \<not> closed (Send (heap st a)) \<Longrightarrow>
   \<exists>st'. sendTargets ts p st = Return st' \<and> clients_m st' = clients_m st \<and>
     nextClient st' = nextClient st \<and>
     (\<forall>a. closed (Send (heap st' a)) = closed (Send (heap st a)))"
proof (induction ts arbitrary: st)
  case Nil
  then show ?case by simp
next
  case (Cons t ts)
  obtain u a where t: "t = (u, a)" by (cases t)
  show ?case
  proof (cases "length (buf (Send (heap st a))) < cap (Send (heap st a))")
    case True
    let ?st1 = "setSend a ((Send (heap st a))\<lparr>buf := buf (Send (heap st a)) @ [p]\<rparr>) st"
    have cl: "\<And>b. closed (Send (heap ?st1 b)) = closed (Send (heap st b))"
      by (simp add: setSend_def)
    have pre: "\<forall>(u, a) \<in> set ts. \<not> closed (Send (heap ?st1 a))"
      using Cons.prems by (auto simp: cl)
    have step: "sendTargets (t # ts) p st = sendTargets ts p ?st1"
      using True Cons.prems t by (simp add: trySend_def)
    from Cons.IH[OF pre] show ?thesis
      unfolding step by (auto simp: cl) (auto simp: setSend_def)
  next
    case False
    let ?st1 = "logPrint (WSDroppingMessage u) st"
    have pre: "\<forall>(u, a) \<in> set ts. \<not> closed (Send (heap ?st1 a))"
      using Cons.prems by (auto simp: logPrint_def)
    have step: "sendTargets (t # ts) p st = sendTargets ts p ?st1"
      using False Cons.prems t by (simp add: trySend_def)
    from Cons.IH[OF pre] show ?thesis
      unfolding step by (auto simp: logPrint_def)
  qed
qed

lemma sendConns_returns:
  "\<forall>a \<in> set cs. \<not> closed (Send (heap st a)) \<Longrightarrow>
   \<exists>st'. sendConns cs p st = Return st' \<and> clients_m st' = clients_m st \<and>
     nextClient st' = nextClient st \<and>
     (\<forall>a. closed (Send (heap st' a)) = closed (Send (heap st a)))"
proof (induction cs arbitrary: st)
  case Nil
  then show ?case by simp
next
  case (Cons a cs)
  show ?case
  proof (cases "length (buf (Send (heap st a))) < cap (Send (heap st a))")
    case True
    let ?st1 = "setSend a ((Send (heap st a))\<lparr>buf := buf (Send (heap st a)) @ [p]\<rparr>) st"
    have cl: "\<And>b. closed (Send (heap ?st1 b)) = closed (Send (heap st b))"
      by (simp add: setSend_def)
    have pre: "\<forall>a \<in> set cs. \<not> closed (Send (heap ?st1 a))"
      using Cons.prems by (auto simp: cl)
    have step: "sendConns (a # cs) p st = sendConns cs p ?st1"
      using True Cons.prems by (simp add: trySend_def)
    from Cons.IH[OF pre] show ?thesis
      unfolding step by (auto simp: cl) (auto simp: setSend_def)
  next
    case False
    let ?st1 = "logPrint (WSDroppingGlobalMessage (UserID (heap st a))) st"
    have pre: "\<forall>a \<in> set cs. \<not> closed (Send (heap ?st1 a))"
      using Cons.prems by (auto simp: logPrint_def)
    have step: "sendConns (a # cs) p st = sendConns cs p ?st1"
      using False Cons.prems by (simp add: trySend_def)
    from Cons.IH[OF pre] show ?thesis
      unfolding step by (auto simp: logPrint_def)
  qed
qed

lemma sameSessions_registryOK:
  "registryOK st \<Longrightarrow> clients_m st' = clients_m st \<Longrightarrow> nextClient st' = nextClient st \<Longrightarrow>
   (\<forall>a. closed (Send (heap st' a)) = closed (Send (heap st a))) \<Longrightarrow> registryOK st'"
  by (simp add: registryOK_def)

lemma snd_update_subset: "snd ` set (AList.update k v al) \<subseteq> insert v (snd ` set al)"
  by (induction al) auto

lemma distinct_snd_update:
  "distinct (map snd al) \<Longrightarrow> v \<notin> snd ` set al \<Longrightarrow> distinct (map snd (AList.update k v al))"
proof (induction al)
  case Nil
  then show ?case by simp
next
  case (Cons x al)
  then show ?case using snd_update_subset[of k v al] by (cases x) auto
qed

lemma set_update_subset: "set (AList.update k v al) \<subseteq> insert (k, v) (set al)"
  by (induction al) auto

lemma registryOK_register:
  assumes ok: "registryOK st"
  shows "registryOK (snd (register u st))"
proof -
  let ?a = "nextClient st"
  let ?al = "AList.update u ?a (clients_m st)"
  have below: "\<forall>(v, b) \<in> set (clients_m st). b < ?a \<and> \<not> closed (Send (heap st b))"
    using ok by (auto simp: registryOK_def list_all_iff)
  have fresh: "?a \<notin> snd ` set (clients_m st)"
    using below by fastforce
  have d1: "distinct (map fst ?al)"
    using ok by (simp add: registryOK_def distinct_update)
  have d2: "distinct (map snd ?al)"
    using ok fresh by (simp add: registryOK_def distinct_snd_update)
  have all: "\<forall>(v, b) \<in> set ?al. b < Suc ?a \<and>
      \<not> closed (Send (((heap st)(?a := \<lparr>UserID = u,
                    Conn = \<lparr>conn_closed = False, readDeadline = 0, writeDeadline = 0,
                            written = []\<rparr>,
                    Send = \<lparr>buf = [], cap = sendQueueSize, closed = False\<rparr>\<rparr>)) b))"
    using below set_update_subset[of u ?a "clients_m st"] by fastforce
  show ?thesis
    using d1 d2 all by (simp add: registryOK_def register_def Let_def list_all_iff)
qed

lemma registryOK_cleanup:
  assumes ok: "registryOK st"
  shows "\<exists>st'. cleanup u a st = Return st' \<and> registryOK st'"
proof (cases "lookup st u")
  case None
  then have "cleanup u a st = Return (logPrint (WSDisconnected u) (connClose a st))"
    by (simp add: cleanup_def)
  moreover have "registryOK (logPrint (WSDisconnected u) (connClose a st))"
    by (rule sameSessions_registryOK[OF ok])
       (simp_all add: logPrint_def connClose_def setConn_def)
  ultimately show ?thesis by blast
next
  case (Some c)
  then have mem: "(u, c) \<in> set (clients_m st)"
    by (auto simp: lookup_def dest: map_of_SomeD)
  have all: "\<forall>(v, b) \<in> set (clients_m st). b < nextClient st \<and> \<not> closed (Send (heap st b))"
    using ok by (auto simp: registryOK_def list_all_iff)
  have opn: "\<not> closed (Send (heap st c))" using all mem by auto
  let ?al = "AList.delete u (clients_m st)"
  let ?st1 = "st\<lparr>clients_m := ?al\<rparr>"
  let ?st' = "logPrint (WSDisconnected u)
                  (connClose a (setSend c ((Send (heap ?st1 c))\<lparr>closed := True\<rparr>) ?st1))"
  have run: "cleanup u a st = Return ?st'"
    using Some opn by (simp add: cleanup_def Let_def)
  have inj: "inj_on snd (set (clients_m st))"
    using ok by (simp add: registryOK_def distinct_map)
  have sub: "set ?al \<subseteq> set (clients_m st)" and keys: "u \<notin> fst ` set ?al"
    by (auto simp: AList.delete_eq)
  have notc: "c \<notin> snd ` set ?al"
  proof
    assume "c \<in> snd ` set ?al"
    then obtain v where v: "(v, c) \<in> set ?al" by auto
    then have "(v, c) \<in> set (clients_m st)" using sub by auto
    then have "(v, c) = (u, c)" using inj mem by (intro inj_onD[OF inj]) auto
    then have "v = u" by simp
    then show False using v keys by force
  qed
  have d1: "distinct (map fst ?al)"
    using ok by (simp add: registryOK_def distinct_delete)
  have d2: "distinct (map snd ?al)"
    using ok by (simp add: registryOK_def AList.delete_eq distinct_map_filter)
  have rest: "\<forall>(v, b) \<in> set ?al. b < nextClient st \<and> \<not> closed (Send (heap ?st' b))"
  proof (clarify)
    fix v b assume vb: "(v, b) \<in> set ?al"
    then have "b \<noteq> c" using notc by force
    moreover have "b < nextClient st \<and> \<not> closed (Send (heap st b))"
      using vb sub all by auto
    ultimately show "b < nextClient st \<and> \<not> closed (Send (heap ?st' b))"
      by (auto simp: logPrint_def connClose_def setConn_def setSend_def)
  qed
  have "registryOK ?st'"
    using d1 d2 rest
    by (simp add: registryOK_def list_all_iff logPrint_def connClose_def setConn_def setSend_def)
  then show ?thesis using run by blast
qed

lemma registryOK_targets:
  assumes ok: "registryOK st"
  shows "distinct (map snd (resolveTargets st ps)) \<and>
         (\<forall>(u, a) \<in> set (resolveTargets st ps). \<not> closed (Send (heap st a)))"
proof -
  let ?ts = "resolveTargets st ps"
  have sub: "set ?ts \<subseteq> set (clients_m st)"
    by (auto simp: set_resolveTargets lookup_def dest: map_of_SomeD)
  have inj: "inj_on snd (set (clients_m st))"
    using ok by (simp add: registryOK_def distinct_map)
  have "distinct ?ts"
    using distinct_resolveTargets[of st ps] by (simp add: distinct_map)
  then have "distinct (map snd ?ts)"
    using inj_on_subset[OF inj sub] by (simp add: distinct_map)
  moreover have "\<forall>(u, a) \<in> set ?ts. \<not> closed (Send (heap st a))"
    using ok sub by (auto simp: registryOK_def list_all_iff)
  ultimately show ?thesis by blast
qed

lemma registryOK_conns:
  "registryOK st \<Longrightarrow> distinct (map snd (clients_m st)) \<and>
     (\<forall>(u, a) \<in> set (clients_m st). \<not> closed (Send (heap st a)))"
  by (auto simp: registryOK_def list_all_iff)

lemma broadcastToChat_returns:
  assumes ok: "registryOK st"
  shows "\<exists>st'. broadcastToChat chatHex p st = Return st' \<and> registryOK st'"
proof (cases "FindOne st chatHex")
  case (Inl e)
  then have "broadcastToChat chatHex p st = Return (logPrint (WSBroadcastChatNotFound chatHex) st)"
    by (simp add: broadcastToChat_eq)
  moreover have "registryOK (logPrint (WSBroadcastChatNotFound chatHex) st)"
    by (rule sameSessions_registryOK[OF ok]) (simp_all add: logPrint_def)
  ultimately show ?thesis by blast
next
  case (Inr chat)
  from registryOK_targets[OF ok, of "Participants chat"]
  have opn: "\<forall>(u, a) \<in> set (resolveTargets st (Participants chat)). \<not> closed (Send (heap st a))"
    by blast
  from sendTargets_returns[OF opn, of p] Inr show ?thesis
    by (auto simp: broadcastToChat_eq intro: sameSessions_registryOK[OF ok])
qed

lemma broadcastGlobal_returns:
  assumes ok: "registryOK st"
  shows "\<exists>st'. broadcastGlobal p st = Return st' \<and> registryOK st'"
proof -
  have opn: "\<forall>a \<in> set (map snd (clients_m st)). \<not> closed (Send (heap st a))"
    using registryOK_conns[OF ok] by auto
  from sendConns_returns[OF opn, of p] show ?thesis
    by (auto simp: broadcastGlobal_def intro: sameSessions_registryOK[OF ok])
qed

lemma persistMessage_sessions:
  "persistMessage chatID sender content mediaURL mediaType st = (r, st1) \<Longrightarrow>
   clients_m st1 = clients_m st \<and> nextClient st1 = nextClient st \<and> heap st1 = heap st"
  by (auto simp: persistMessage_def InsertOne_def UpdateOne_def Let_def
      split: if_splits sum.splits prod.splits)

lemma handleIncomingMessage_returns:
  assumes ok: "registryOK st"
  shows "\<exists>st'. handleIncomingMessage client inm st = Return st' \<and> registryOK st'"
proof -
  let ?u = "UserID (heap st client)"
  have lg: "registryOK (logPrint e st)" for e
    by (rule sameSessions_registryOK[OF ok]) (simp_all add: logPrint_def)
  show ?thesis
  proof (cases "CountDocuments st (InChatID inm) ?u")
    case (Inl e)
    then show ?thesis using lg by (simp add: handleIncomingMessage_def Let_def)
  next
    case (Inr n)
    show ?thesis
    proof (cases "n = 0")
      case True
      then show ?thesis using Inr lg by (simp add: handleIncomingMessage_def Let_def)
    next
      case False
      obtain r st1 where pm: "persistMessage (InChatID inm) ?u (InContent inm) (MediaURL inm)
          (MediaType inm) st = (r, st1)" by (cases "persistMessage (InChatID inm) ?u
          (InContent inm) (MediaURL inm) (MediaType inm) st")
      have ok1: "registryOK st1"
        using persistMessage_sessions[OF pm] by (intro sameSessions_registryOK[OF ok]) simp_all
      show ?thesis
      proof (cases r)
        case (Inl e)
        have "registryOK (logPrint (WSPersistError ?u) st1)"
          by (rule sameSessions_registryOK[OF ok1]) (simp_all add: logPrint_def)
        then show ?thesis using Inr False pm Inl
          by (simp add: handleIncomingMessage_def Let_def)
      next
        case (Inr msg)
        then show ?thesis using \<open>CountDocuments st (InChatID inm) ?u = Inr n\<close> False pm
            broadcastToChat_returns[OF ok1]
          by (simp add: handleIncomingMessage_def Let_def)
      qed
    qed
  qed
qed

lemma dispatch_returns:
  assumes ok: "registryOK st"
  shows "\<exists>st'. dispatch client inm st = Return st' \<and> registryOK st'"
proof -
  have lg: "registryOK (logPrint e st)" for e
    by (rule sameSessions_registryOK[OF ok]) (simp_all add: logPrint_def)
  show ?thesis
    using handleIncomingMessage_returns[OF ok] broadcastToChat_returns[OF ok]
      broadcastGlobal_returns[OF ok] lg
    by (simp add: dispatch_def Let_def)
qed

lemma readerLoop_returns:
  "registryOK st \<Longrightarrow> \<exists>st'. readerLoop client reads st = Return st' \<and> registryOK st'"
proof (induction reads arbitrary: st)
  case Nil
  have "registryOK (logPrint (WSReadError (UserID (heap st client))) st)"
    by (rule sameSessions_registryOK[OF Nil]) (simp_all add: logPrint_def)
  then show ?case by simp
next
  case (Cons r reads)
  show ?case
  proof (cases r)
    case None
    have "registryOK (logPrint (WSReadError (UserID (heap st client))) st)"
      by (rule sameSessions_registryOK[OF Cons.prems]) (simp_all add: logPrint_def)
    then show ?thesis using None by simp
  next
    case (Some inm)
    from dispatch_returns[OF Cons.prems, of client inm]
    obtain st1 where d: "dispatch client inm st = Return st1" and ok1: "registryOK st1"
      by blast
    from Cons.IH[OF ok1] show ?thesis using Some d by simp
  qed
qed

lemma serveConn_returns:
  assumes ok: "registryOK st"
  shows "\<exists>st'. serveConn userID reads st = Return st' \<and> registryOK st'"
proof -
  let ?st0 = "logPrint (WSConnected userID) st"
  have ok0: "registryOK ?st0"
    by (rule sameSessions_registryOK[OF ok]) (simp_all add: logPrint_def)
  obtain client st1 where reg: "register userID ?st0 = (client, st1)"
    by (cases "register userID ?st0")
  have ok1: "registryOK st1" using registryOK_register[OF ok0, of userID] reg by simp
  let ?st2 = "setReadDeadline client (clock st1 + pongWait) st1"
  have ok2: "registryOK ?st2"
    by (rule sameSessions_registryOK[OF ok1]) (simp_all add: setReadDeadline_def setConn_def)
  from readerLoop_returns[OF ok2, of client reads]
  obtain st3 where rl: "readerLoop client reads ?st2 = Return st3" and ok3: "registryOK st3"
    by blast
  from registryOK_cleanup[OF ok3, of userID client] show ?thesis
    using reg rl by (simp add: serveConn_def Let_def)
qed

subsection \<open>Room broadcast under backpressure\<close>

lemma remove_nth_set:
  assumes "j < length xs"
  shows "set (xs ! j # take j xs @ drop (Suc j) xs) = set xs"
    and "length (take j xs @ drop (Suc j) xs) < length xs"
    and "distinct xs \<Longrightarrow> distinct (xs ! j # take j xs @ drop (Suc j) xs)"
proof -
  have eq: "xs = take j xs @ xs ! j # drop (Suc j) xs"
    using assms by (rule id_take_nth_drop)
  show "set (xs ! j # take j xs @ drop (Suc j) xs) = set xs"
    by (subst (4) eq) auto
  show "length (take j xs @ drop (Suc j) xs) < length xs"
    using assms by simp
  show "distinct (xs ! j # take j xs @ drop (Suc j) xs)" if d: "distinct xs"
  proof -
    from d have "distinct (take j xs @ xs ! j # drop (Suc j) xs)" using eq by simp
    then show ?thesis by auto
  qed
qed

lemma rangeOrder_arrangement:
  "set (rangeOrder picks xs) = set xs \<and> length (rangeOrder picks xs) = length xs \<and>
   (distinct xs \<longrightarrow> distinct (rangeOrder picks xs))"
proof (induction picks arbitrary: xs)
  case Nil
  then show ?case by simp
next
  case (Cons i picks)
  show ?case
  proof (cases "xs = []")
    case True
    then show ?thesis by simp
  next
    case False
    let ?j = "i mod length xs"
    let ?rest = "take ?j xs @ drop (Suc ?j) xs"
    have j: "?j < length xs" using False by simp
    have ro: "rangeOrder (i # picks) xs = xs ! ?j # rangeOrder picks ?rest"
      using False by (simp add: Let_def)
    note ih = Cons.IH[of ?rest]
    have s: "set (rangeOrder (i # picks) xs) = set xs"
      unfolding ro using ih remove_nth_set(1)[OF j] by simp
    have l: "length (rangeOrder (i # picks) xs) = length xs"
      unfolding ro using ih j by simp
    have d: "distinct (rangeOrder (i # picks) xs)" if "distinct xs"
      unfolding ro using ih remove_nth_set(3)[OF j that] by simp
    show ?thesis using s l d by blast
  qed
qed

lemma rangeOrder_any:
  "distinct xs \<Longrightarrow> distinct ord \<Longrightarrow> set ord = set xs \<Longrightarrow> \<exists>picks. rangeOrder picks xs = ord"
proof (induction ord arbitrary: xs)
  case Nil
  then have "rangeOrder [] xs = []" by simp
  then show ?case by blast
next
  case (Cons y ys)
  then have "y \<in> set xs" by auto
  then obtain j where j: "j < length xs" and y: "xs ! j = y"
    by (auto simp: in_set_conv_nth)
  let ?rest = "take j xs @ drop (Suc j) xs"
  have d: "distinct (y # ?rest)" and s: "set (y # ?rest) = set xs"
    using remove_nth_set(1,3)[OF j] Cons.prems(1) y by auto
  have "set ys = set ?rest"
    using Cons.prems(2,3) d s by auto
  moreover have "distinct ?rest" "distinct ys" using d Cons.prems(2) by auto
  ultimately obtain picks where p: "rangeOrder picks ?rest = ys"
    using Cons.IH[of ?rest] by blast
  have "xs \<noteq> []" using j by auto
  then have "rangeOrder (j # picks) xs = y # ys"
    using j y p by (simp add: Let_def)
  then show ?case by blast
qed

lemma sendTargets_closed_panics:
  "(u, a) \<in> set ts \<Longrightarrow> closed (Send (heap st a)) \<Longrightarrow>
   \<exists>s. sendTargets ts p st = Panic SendOnClosedChannel s"
proof (induction ts arbitrary: st)
  case Nil
  then show ?case by simp
next
  case (Cons t ts)
  obtain v b where t: "t = (v, b)" by (cases t)
  show ?case
  proof (cases "closed (Send (heap st b))")
    case True
    then show ?thesis using t by (simp add: trySend_def)
  next
    case False
    then have "(u, a) \<noteq> (v, b)" using Cons.prems(2) by auto
    then have mem: "(u, a) \<in> set ts" using Cons.prems(1) t by auto
    show ?thesis
    proof (cases "length (buf (Send (heap st b))) < cap (Send (heap st b))")
      case True
      let ?st1 = "setSend b ((Send (heap st b))\<lparr>buf := buf (Send (heap st b)) @ [p]\<rparr>) st"
      have "closed (Send (heap ?st1 a))" using Cons.prems(2) by (auto simp: setSend_def)
      from Cons.IH[OF mem this] show ?thesis
        using True False t by (simp add: trySend_def)
    next
      case full: False
      let ?st1 = "logPrint (WSDroppingMessage v) st"
      have "closed (Send (heap ?st1 a))" using Cons.prems(2) by (simp add: logPrint_def)
      from Cons.IH[OF mem this] show ?thesis
        using full False t by (simp add: trySend_def)
    qed
  qed
qed

lemma undisturbed_backpressure:
  assumes snap: "snapshotTargets st chatHex = Inr ts"
      and inj: "distinct (map snd ts)"
      and opn: "\<forall>(u, a) \<in> set ts. \<not> closed (Send (heap st a))"
  shows "\<exists>st' dropped. broadcastToChatAmid chatHex p [] picks st = Return st' \<and>
     (\<forall>(u, a) \<in> set ts. queue st' a = (if isFull st a then queue st a else queue st a @ [p])) \<and>
     length (filter (\<lambda>(u, a). queue st' a = queue st a @ [p]) ts)
       = length ts - length (filter (\<lambda>(u, a). isFull st a) ts) \<and>
     logs st' = logs st @ dropped \<and>
     length dropped = length (filter (\<lambda>(u, a). isFull st a) ts) \<and>
     set dropped = (\<lambda>(u, a). WSDroppingMessage u) ` set (filter (\<lambda>(u, a). isFull st a) ts)"
proof -
  let ?ord = "rangeOrder picks ts"
  let ?full = "\<lambda>(u, a). isFull st a"
  let ?dropped = "map (\<lambda>(u, a). WSDroppingMessage u) (filter ?full ?ord)"
  let ?st' = "st\<lparr>heap := (\<lambda>a. if a \<in> snd ` set ?ord \<and> \<not> isFull st a then enqueue p (heap st a) else heap st a),
               logs := logs st @ ?dropped\<rparr>"
  have dts: "distinct ts" and injs: "inj_on snd (set ts)"
    using inj by (simp_all add: distinct_map)
  have arr: "set ?ord = set ts" "distinct ?ord"
    using rangeOrder_arrangement[of picks ts] dts by simp_all
  have inj': "distinct (map snd ?ord)"
    using arr injs by (simp add: distinct_map)
  have opn': "\<forall>(u, a) \<in> set ?ord. \<not> closed (Send (heap st a))"
    using opn arr by simp
  have run: "broadcastToChatAmid chatHex p [] picks st = Return ?st'"
    using snap sendTargets_effect[OF inj' opn', of p] by (simp add: broadcastToChatAmid_def)
  have q: "queue ?st' a = (if isFull st a then queue st a else queue st a @ [p])"
    if "(u, a) \<in> set ts" for u a
    using that arr by (auto simp: queue_def enqueue_def rev_image_eqI)
  have same: "filter (\<lambda>(u, a). queue ?st' a = queue st a @ [p]) ts
               = filter (\<lambda>x. \<not> ?full x) ts"
    by (rule filter_cong) (auto simp: q)
  have cnt: "length (filter (\<lambda>(u, a). queue ?st' a = queue st a @ [p]) ts)
       = length ts - length (filter ?full ts)"
    unfolding same by (rule count_enqueued)
  have len: "length ?dropped = length (filter ?full ts)"
    using arr dts by (simp add: distinct_length_filter)
  have st: "set ?dropped = (\<lambda>(u, a). WSDroppingMessage u) ` set (filter ?full ts)"
    using arr by simp
  have lg: "logs ?st' = logs st @ ?dropped" by simp
  show ?thesis
    using run q cnt len st lg by (intro exI[of _ ?st'] exI[of _ ?dropped]) blast
qed

lemma snapshot_congested:
  "snapshotTargets congestedHub ''c1'' = Inr [(''u1'', 0), (''u2'', 1)]"
  by (simp add: snapshotTargets_def FindOne_def congestedHub_simps roomC1_def resolveTargets_def
      lookup_def)

lemma undisturbed_backpressure_example:
  "\<exists>st'. broadcastToChatAmid ''c1'' (TypingPayload ''u1'' ''c1'') [] picks congestedHub = Return st' \<and>
      queue st' 0 = [TypingPayload ''u1'' ''c1''] \<and> queue st' 1 = backlog \<and>
      logs st' = [WSDroppingMessage ''u2'']"
proof -
  let ?ts = "[(''u1'', 0::nat), (''u2'', 1)]"
  let ?p = "TypingPayload ''u1'' ''c1''"
  have inj: "distinct (map snd ?ts)" by simp
  have opn: "\<forall>(u, a) \<in> set ?ts. \<not> closed (Send (heap congestedHub a))"
    by (simp add: congestedHub_simps exampleHub_simps)
  have q0: "queue congestedHub 0 = []"
    by (simp add: queue_def congestedHub_simps exampleHub_simps)
  have q1: "queue congestedHub (Suc 0) = backlog"
    by (simp add: queue_def congestedHub_simps)
  have f0: "\<not> isFull congestedHub 0"
    by (simp add: isFull_def q0 congestedHub_simps exampleHub_simps sendQueueSize_def)
  have f1: "isFull congestedHub (Suc 0)"
    by (simp add: isFull_def q1 congestedHub_simps backlog_def)
  from undisturbed_backpressure[OF snapshot_congested inj opn, of ?p picks]
  obtain st' dropped where run: "broadcastToChatAmid ''c1'' ?p [] picks congestedHub = Return st'"
    and qs: "\<forall>(u, a) \<in> set ?ts. queue st' a =
        (if isFull congestedHub a then queue congestedHub a else queue congestedHub a @ [?p])"
    and lg: "logs st' = logs congestedHub @ dropped"
    and len: "length dropped = length (filter (\<lambda>(u, a). isFull congestedHub a) ?ts)"
    and st: "set dropped = (\<lambda>(u, a). WSDroppingMessage u) `
               set (filter (\<lambda>(u, a). isFull congestedHub a) ?ts)"
    by blast
  have r0: "queue st' 0 = [?p]" using qs f0 q0 by simp
  have r1: "queue st' 1 = backlog" using qs f1 q1 by simp
  have "length dropped = 1" "set dropped = {WSDroppingMessage ''u2''}"
    using len st f0 f1 by simp_all
  then have "dropped = [WSDroppingMessage ''u2'']"
    by (cases dropped) auto
  then have r2: "logs st' = [WSDroppingMessage ''u2'']"
    using lg by (simp add: congestedHub_simps)
  show ?thesis using run r0 r1 r2 by blast
qed

lemma registryOK_exampleHub: "registryOK exampleHub"
  by (simp add: registryOK_def exampleHub_simps exampleHub_def register_def emptyHub_def Let_def)

lemma snapshot_example:
  "snapshotTargets exampleHub ''c1'' = Inr [(''u1'', 0), (''u2'', 1)]"
  by (simp add: snapshotTargets_def FindOne_def resolveTargets_def lookup_def exampleHub_simps
      roomC1_def)

lemma teardown_of_target_panics:
  assumes ok: "registryOK st"
      and snap: "snapshotTargets st chatHex = Inr ts"
      and target: "(u, a) \<in> set ts"
  shows "\<exists>s. broadcastToChatAmid chatHex p [(u, a)] picks st = Panic SendOnClosedChannel s"
proof -
  obtain chat :: Chat where ts: "ts = resolveTargets st (Participants chat)"
    using snap by (auto simp: snapshotTargets_def split: sum.splits)
  have reg: "lookup st u = Some a"
    using target ts by (simp add: set_resolveTargets)
  then have "(u, a) \<in> set (clients_m st)"
    by (auto simp: lookup_def dest: map_of_SomeD)
  then have opn: "\<not> closed (Send (heap st a))"
    using ok by (auto simp: registryOK_def list_all_iff)
  let ?s1 = "logPrint (WSDisconnected u)
               (connClose a (setSend a ((Send (heap st a))\<lparr>closed := True\<rparr>)
                  (st\<lparr>clients_m := AList.delete u (clients_m st)\<rparr>)))"
  have down: "teardownAll [(u, a)] st = Return ?s1"
    using reg opn by (simp add: cleanup_def Let_def)
  have shut: "closed (Send (heap ?s1 a))"
    by (simp add: logPrint_def connClose_def setConn_def setSend_def)
  have "(u, a) \<in> set (rangeOrder picks ts)"
    using rangeOrder_arrangement[of picks ts] target by simp
  from sendTargets_closed_panics[OF this shut, of p]
  obtain s where "sendTargets (rangeOrder picks ts) p ?s1 = Panic SendOnClosedChannel s"
    by blast
  then have "broadcastToChatAmid chatHex p [(u, a)] picks st = Panic SendOnClosedChannel s"
    unfolding broadcastToChatAmid_def snap down by simp
  then show ?thesis by blast
qed

text \<open>
  C3. The claim is that a room broadcast enqueues the frame to every connected
  participant whose queue has room, drops it for those whose queue is at capacity, and
  in all cases returns without raising an error to its caller. When no connection ends
  between the snapshot and the sends, that is what the code does, in whatever order
  the targets are visited (lemma \<open>undisturbed_backpressure\<close>: of \<open>k\<close> targets of which
  \<open>q\<close> are full, \<open>k - q\<close> are enqueued and \<open>q\<close> drops are logged). But the read lock is
  released before the sends. Evaluated on a hub that satisfies the registry invariant,
  where \<open>u1\<close> and \<open>u2\<close> are connected with empty open queues and room \<open>c1\<close> lists both:
  the broadcast takes its snapshot, the connection of \<open>u2\<close> ends and its deferred
  function closes its queue, and the send loop then runs over the snapshot. In every
  order of visiting, the send to the client of \<open>u2\<close> is a send on a closed channel, and
  the broadcast panics instead of returning. Lemma \<open>teardown_of_target_panics\<close> shows
  the same of every hub that satisfies the invariant and every target.
\<close>

theorem broadcast_amid_teardown_panics:
  "registryOK exampleHub \<and>
   snapshotTargets exampleHub ''c1'' = Inr [(''u1'', 0), (''u2'', 1)] \<and>
   queue exampleHub 0 = [] \<and> queue exampleHub 1 = [] \<and>
   \<not> closed (Send (heap exampleHub 0)) \<and> \<not> closed (Send (heap exampleHub 1)) \<and>
   (\<forall>picks. \<exists>s. broadcastToChatAmid ''c1'' (TypingPayload ''u1'' ''c1'') [(''u2'', 1)] picks
                   exampleHub = Panic SendOnClosedChannel s)"
proof -
  let ?p = "TypingPayload ''u1'' ''c1''"
  let ?ts = "[(''u1'', 0::nat), (''u2'', 1)]"
  let ?s1 = "logPrint (WSDisconnected ''u2'')
               (connClose 1 (setSend 1 ((Send (heap exampleHub 1))\<lparr>closed := True\<rparr>)
                  (exampleHub\<lparr>clients_m := [(''u1'', 0)]\<rparr>)))"
  have down: "teardownAll [(''u2'', 1)] exampleHub = Return ?s1"
    by (simp add: cleanup_def lookup_def exampleHub_simps Let_def)
  have shut: "closed (Send (heap ?s1 1))"
    by (simp add: logPrint_def connClose_def setConn_def setSend_def)
  have panics: "\<exists>s. broadcastToChatAmid ''c1'' ?p [(''u2'', 1)] picks exampleHub
                  = Panic SendOnClosedChannel s" for picks
  proof -
    have "(''u2'', 1) \<in> set (rangeOrder picks ?ts)"
      using rangeOrder_arrangement[of picks ?ts] by simp
    from sendTargets_closed_panics[OF this shut, of ?p]
    obtain s where "sendTargets (rangeOrder picks ?ts) ?p ?s1 = Panic SendOnClosedChannel s"
      by blast
    then have "broadcastToChatAmid ''c1'' ?p [(''u2'', 1)] picks exampleHub
                  = Panic SendOnClosedChannel s"
      unfolding broadcastToChatAmid_def snapshot_example down by simp
    then show ?thesis by blast
  qed
  have opn: "\<not> closed (Send (heap exampleHub 0))" "\<not> closed (Send (heap exampleHub 1))"
    by (simp_all add: exampleHub_simps)
  show ?thesis
    using registryOK_exampleHub snapshot_example panics opn
    by (simp add: queue_def exampleHub_simps)
qed

subsection \<open>Presence fan-out\<close>

lemma sendConns_effect:
  "distinct cs \<Longrightarrow> \<forall>a \<in> set cs. \<not> closed (Send (heap st a)) \<and> \<not> isFull st a \<Longrightarrow>
   sendConns cs p st =
     Return (st\<lparr>heap := (\<lambda>a. if a \<in> set cs then enqueue p (heap st a) else heap st a)\<rparr>)"
proof (induction cs arbitrary: st)
  case Nil
  then show ?case by simp
next
  case (Cons a cs)
  let ?st1 = "setSend a ((Send (heap st a))\<lparr>buf := buf (Send (heap st a)) @ [p]\<rparr>) st"
  from Cons.prems have open_a: "\<not> closed (Send (heap st a))" and room: "\<not> isFull st a"
    and notin: "a \<notin> set cs" and dist: "distinct cs" by auto
  have step: "sendConns (a # cs) p st = sendConns cs p ?st1"
    using open_a room by (simp add: trySend_def isFull_def queue_def)
  have h: "\<And>b. b \<noteq> a \<Longrightarrow> heap ?st1 b = heap st b" by (simp add: setSend_def)
  have pre: "\<forall>b \<in> set cs. \<not> closed (Send (heap ?st1 b)) \<and> \<not> isFull ?st1 b"
    using Cons.prems(2) notin by (auto simp: setSend_def isFull_def queue_def)
  have heap_eq: "(\<lambda>b. if b \<in> set cs then enqueue p (heap ?st1 b) else heap ?st1 b)
        = (\<lambda>b. if b \<in> set (a # cs) then enqueue p (heap st b) else heap st b)"
  proof
    fix b
    show "(if b \<in> set cs then enqueue p (heap ?st1 b) else heap ?st1 b)
        = (if b \<in> set (a # cs) then enqueue p (heap st b) else heap st b)"
    proof (cases "b = a")
      case True
      then show ?thesis using notin by (simp add: setSend_def enqueue_def)
    next
      case False
      then show ?thesis using h[of b] by auto
    qed
  qed
  have rest: "?st1\<lparr>heap := H\<rparr> = st\<lparr>heap := H\<rparr>" for H
    by (simp add: setSend_def)
  show ?case
    unfolding step Cons.IH[OF dist pre] heap_eq rest by simp
qed

lemma exampleHub_queues:
  "queue exampleHub 0 = []" "queue exampleHub (Suc 0) = []"
  "\<not> isFull exampleHub 0" "\<not> isFull exampleHub (Suc 0)"
  "UserID (heap exampleHub 0) = ''u1''" "UserID (heap exampleHub (Suc 0)) = ''u2''"
  by (simp_all add: queue_def isFull_def exampleHub_simps sendQueueSize_def)

text \<open>
  C4. A presence envelope is dispatched to \<open>broadcastGlobal\<close>. When the registered
  sessions are distinct clients whose queues are open and below capacity, the call
  returns normally and the presence frame is appended to the queue of every one of the
  registered sessions, all \<open>N\<close> of them, the registered session that sent the envelope
  included; nothing is dropped or logged.
\<close>

theorem broadcastGlobal_fanout:
  assumes inj: "distinct (map snd (clients_m st))"
      and room: "\<forall>(u, a) \<in> set (clients_m st). \<not> closed (Send (heap st a)) \<and> \<not> isFull st a"
      and presence: "Type inm = ''presence''"
      and p: "p = PresencePayload (UserID (heap st client)) (Online inm)"
      and registered: "lookup st (UserID (heap st client)) = Some client"
  shows "\<exists>st'. dispatch client inm st = Return st' \<and> broadcastGlobal p st = Return st' \<and>
     (\<forall>(u, a) \<in> set (clients_m st). queue st' a = queue st a @ [p]) \<and>
     length (filter (\<lambda>(u, a). queue st' a = queue st a @ [p]) (clients_m st))
       = length (clients_m st) \<and>
     queue st' client = queue st client @ [p] \<and>
     logs st' = logs st"
proof -
  let ?cs = "map snd (clients_m st)"
  let ?st' = "st\<lparr>heap := (\<lambda>a. if a \<in> set ?cs then enqueue p (heap st a) else heap st a)\<rparr>"
  have pre: "\<forall>a \<in> set ?cs. \<not> closed (Send (heap st a)) \<and> \<not> isFull st a"
    using room by auto
  have run: "broadcastGlobal p st = Return ?st'"
    using sendConns_effect[OF inj pre, of p] by (simp add: broadcastGlobal_def)
  have disp: "dispatch client inm st = broadcastGlobal p st"
    using presence p by (simp add: dispatch_def)
  have q: "queue ?st' a = queue st a @ [p]" if "(u, a) \<in> set (clients_m st)" for u a
    using that by (auto simp: queue_def enqueue_def rev_image_eqI)
  have all: "filter (\<lambda>(u, a). queue ?st' a = queue st a @ [p]) (clients_m st) = clients_m st"
    by (rule filter_True) (use q in blast)
  have own: "(UserID (heap st client), client) \<in> set (clients_m st)"
    using registered by (auto simp: lookup_def dest: map_of_SomeD)
  show ?thesis
    using run disp q all q[OF own] by (intro exI[of _ ?st']) auto
qed

theorem broadcastGlobal_fanout_witness:
  "lookup exampleHub ''u1'' = Some 0 \<and> clients_m exampleHub = [(''u1'', 0), (''u2'', 1)] \<and>
   (\<exists>st'. dispatch 0 (envelope ''presence'' [] []) exampleHub = Return st' \<and>
      queue st' 0 = [PresencePayload ''u1'' True] \<and>
      queue st' 1 = [PresencePayload ''u1'' True])"
proof -
  let ?p = "PresencePayload ''u1'' True"
  let ?inm = "envelope ''presence'' [] []"
  have cl: "clients_m exampleHub = [(''u1'', 0), (''u2'', 1)]"
    by (simp add: exampleHub_simps)
  have inj: "distinct (map snd (clients_m exampleHub))"
    by (simp add: cl)
  have room: "\<forall>(u, a) \<in> set (clients_m exampleHub).
      \<not> closed (Send (heap exampleHub a)) \<and> \<not> isFull exampleHub a"
    by (simp add: cl exampleHub_queues exampleHub_simps)
  have presence: "Type ?inm = ''presence''"
    by (simp add: envelope_def)
  have p: "?p = PresencePayload (UserID (heap exampleHub 0)) (Online ?inm)"
    by (simp add: exampleHub_queues envelope_def)
  have registered: "lookup exampleHub (UserID (heap exampleHub 0)) = Some 0"
    by (simp add: lookup_def cl exampleHub_queues)
  from broadcastGlobal_fanout[OF inj room presence p registered]
  obtain st' where run: "dispatch 0 ?inm exampleHub = Return st'"
    and qs: "\<forall>(u, a) \<in> set (clients_m exampleHub). queue st' a = queue exampleHub a @ [?p]"
    by blast
  have r0: "queue st' 0 = [?p]" using qs by (simp add: cl exampleHub_queues)
  have r1: "queue st' 1 = [?p]" using qs by (simp add: cl exampleHub_queues)
  show ?thesis using registered cl run r0 r1 by (simp add: exampleHub_queues)
qed

subsection \<open>Typing indicators\<close>

text \<open>
  C10. A typing envelope goes straight to \<open>broadcastToChat\<close>: no hypothesis below says
  that the sender is a participant of the room, and the sender of the example is not
  one. For whatever sender and whatever room the store finds, the typing frame is
  appended to the queue of every connected participant of the room whose queue is open
  and below capacity, and nothing is persisted.
\<close>

theorem typing_reaches_room:
  assumes typing: "Type inm = ''typing''"
      and found: "FindOne st (InChatID inm) = Inr chat"
      and ts: "ts = resolveTargets st (Participants chat)"
      and inj: "distinct (map snd ts)"
      and opn: "\<forall>(u, a) \<in> set ts. \<not> closed (Send (heap st a))"
      and p: "p = TypingPayload (UserID (heap st client)) (InChatID inm)"
  shows "\<exists>st'. dispatch client inm st = Return st' \<and>
     (\<forall>(u, a) \<in> set ts. queue st' a = (if isFull st a then queue st a else queue st a @ [p])) \<and>
     MessagesCollection st' = MessagesCollection st"
proof -
  let ?st' = "st\<lparr>heap := (\<lambda>a. if a \<in> snd ` set ts \<and> \<not> isFull st a then enqueue p (heap st a) else heap st a),
               logs := logs st @ map (\<lambda>(u, a). WSDroppingMessage u) (filter (\<lambda>(u, a). isFull st a) ts)\<rparr>"
  have "dispatch client inm st = broadcastToChat (InChatID inm) p st"
    using typing p by (simp add: dispatch_def)
  also have "\<dots> = Return ?st'"
    using found ts sendTargets_effect[OF inj opn, of p] by (simp add: broadcastToChat_eq)
  finally have run: "dispatch client inm st = Return ?st'" .
  have q: "queue ?st' a = (if isFull st a then queue st a else queue st a @ [p])"
    if "(u, a) \<in> set ts" for u a
    using that by (auto simp: queue_def enqueue_def rev_image_eqI)
  show ?thesis using run q by (intro exI[of _ ?st']) auto
qed

theorem typing_reaches_room_witness:
  "FindOne exampleHub ''c2'' = Inr roomC2 \<and>
   UserID (heap exampleHub 0) \<notin> set (Participants roomC2) \<and>
   (\<exists>st'. dispatch 0 (envelope ''typing'' ''c2'' []) exampleHub = Return st' \<and>
      queue st' 1 = [TypingPayload ''u1'' ''c2''])"
proof -
  let ?p = "TypingPayload ''u1'' ''c2''"
  let ?inm = "envelope ''typing'' ''c2'' []"
  let ?ts = "[(''u2'', 1::nat)]"
  have typing: "Type ?inm = ''typing''" by (simp add: envelope_def)
  have found: "FindOne exampleHub (InChatID ?inm) = Inr roomC2"
    by (simp add: FindOne_def exampleHub_simps envelope_def roomC1_def roomC2_def)
  have ts: "?ts = resolveTargets exampleHub (Participants roomC2)"
    by (simp add: resolveTargets_def lookup_def exampleHub_simps roomC2_def)
  have inj: "distinct (map snd ?ts)" by simp
  have opn: "\<forall>(u, a) \<in> set ?ts. \<not> closed (Send (heap exampleHub a))"
    by (simp add: exampleHub_simps)
  have p: "?p = TypingPayload (UserID (heap exampleHub 0)) (InChatID ?inm)"
    by (simp add: exampleHub_queues envelope_def)
  have outsider: "UserID (heap exampleHub 0) \<notin> set (Participants roomC2)"
    by (simp add: exampleHub_queues roomC2_def)
  from typing_reaches_room[OF typing found ts inj opn p]
  obtain st' where run: "dispatch 0 ?inm exampleHub = Return st'"
    and qs: "\<forall>(u, a) \<in> set ?ts. queue st' a =
        (if isFull exampleHub a then queue exampleHub a else queue exampleHub a @ [?p])"
    by blast
  have r1: "queue st' 1 = [?p]" using qs by (simp add: exampleHub_queues)
  show ?thesis using found outsider run r1 by (simp add: envelope_def)
qed

subsection \<open>Registration and teardown\<close>

lemma lookup_register:
  "lookup (snd (register u st)) v = (if v = u then Some (nextClient st) else lookup st v)"
  by (simp add: register_def lookup_def Let_def update_conv')

lemma register_twice_cleanup_first:
  "\<exists>s3. cleanup u (fst (register u st)) (snd (register u (snd (register u st)))) = Return s3
     \<and> lookup s3 u = None"
  by (simp add: cleanup_def lookup_def register_def Let_def update_conv' delete_conv
        logPrint_def connClose_def setConn_def setSend_def)

text \<open>
  C1. The claim is that a superseded session's teardown leaves its successor registered.
  The deferred function deletes whatever client the registry holds for the user and
  closes that client's queue, without comparing it with the client of the connection
  that is ending. Evaluated on the scenario of the claim (user \<open>u1\<close> connects as session
  \<open>a\<close>, connects again as session \<open>b\<close>, then the teardown of \<open>a\<close> runs): the registry
  ends with no entry for \<open>u1\<close>, the queue of \<open>b\<close> is closed although its transport is
  open, and the queue of \<open>a\<close> itself is never closed.
\<close>

theorem superseded_teardown_evicts_successor:
  "(let (a, s1) = register ''u1'' emptyHub; (b, s2) = register ''u1'' s1 in
      a \<noteq> b \<and> lookup s2 ''u1'' = Some b \<and>
      (case cleanup ''u1'' a s2 of
         Return s3 \<Rightarrow> lookup s3 ''u1'' = None \<and> lookup s3 ''u1'' \<noteq> Some b \<and>
                      closed (Send (heap s3 b)) \<and> \<not> closed (Send (heap s3 a)) \<and>
                      conn_closed (Conn (heap s3 a)) \<and> \<not> conn_closed (Conn (heap s3 b))
       | Panic e s3 \<Rightarrow> False))"
  by (simp add: register_def emptyHub_def Let_def cleanup_def lookup_def logPrint_def
        connClose_def setConn_def setSend_def)

text \<open>
  C2, as stated, fails: after a second registration for the same user, and after the
  whole life of the second connection, the superseded session has been neither returned
  nor terminated: its transport and its queue are still open.
\<close>

theorem register_leaves_superseded_running:
  "(let (a, s1) = register ''u1'' emptyHub; (b, s2) = register ''u1'' s1 in
      lookup s1 ''u1'' = Some a \<and> lookup s2 ''u1'' = Some b \<and> a \<noteq> b \<and>
      \<not> terminated s2 a \<and>
      (case serveConn ''u1'' [] s1 of
         Return s \<Rightarrow> \<not> terminated s a
       | Panic e s \<Rightarrow> False))"
  by (simp add: register_def emptyHub_def Let_def cleanup_def lookup_def logPrint_def
        connClose_def setConn_def setSend_def terminated_def serveConn_def
        setReadDeadline_def)

text \<open>
  C2, amended. For every userID, registration installs the new session, a fresh client
  with an empty open queue of \<open>sendQueueSize\<close>, as the current mapping for that userID,
  replacing any earlier mapping; the mappings of other users are unchanged; no superseded
  session is returned, and every earlier session is left exactly as it was.
\<close>

theorem register_installs:
  assumes reg: "register userID st = (b, st')"
      and earlier: "a < nextClient st"
      and other: "v \<noteq> userID"
  shows "lookup st' userID = Some b \<and> b = nextClient st \<and>
         heap st' b = \<lparr>UserID = userID,
                        Conn = \<lparr>conn_closed = False, readDeadline = 0, writeDeadline = 0,
                                written = []\<rparr>,
                        Send = \<lparr>buf = [], cap = sendQueueSize, closed = False\<rparr>\<rparr> \<and>
         lookup st' v = lookup st v \<and>
         heap st' a = heap st a \<and> terminated st' a = terminated st a"
  using reg earlier other
  by (auto simp: register_def lookup_def Let_def update_conv' terminated_def)

theorem register_installs_witness:
  "register ''u1'' (snd (register ''u1'' emptyHub))
     = (1, snd (register ''u1'' (snd (register ''u1'' emptyHub)))) \<and>
   (0::nat) < nextClient (snd (register ''u1'' emptyHub)) \<and> ''u2'' \<noteq> ''u1'' \<and>
   lookup (snd (register ''u1'' emptyHub)) ''u1'' = Some 0 \<and>
   lookup (snd (register ''u1'' (snd (register ''u1'' emptyHub)))) ''u1'' = Some 1 \<and>
   heap (snd (register ''u1'' (snd (register ''u1'' emptyHub)))) 0
     = heap (snd (register ''u1'' emptyHub)) 0 \<and>
   \<not> terminated (snd (register ''u1'' (snd (register ''u1'' emptyHub)))) 0"
proof -
  let ?s1 = "snd (register ''u1'' emptyHub)"
  let ?s2 = "snd (register ''u1'' ?s1)"
  have reg: "register ''u1'' ?s1 = (1, ?s2)"
    by (simp add: register_def emptyHub_def Let_def)
  have earlier: "(0::nat) < nextClient ?s1"
    by (simp add: register_def emptyHub_def Let_def)
  have other: "''u2'' \<noteq> ''u1''" by simp
  have before: "lookup ?s1 ''u1'' = Some 0"
    by (simp add: lookup_register emptyHub_def)
  have alive: "\<not> terminated ?s1 0"
    by (simp add: register_def emptyHub_def Let_def terminated_def)
  from register_installs[OF reg earlier other]
  show ?thesis using reg earlier before alive by simp
qed

subsection \<open>Ingest of chat messages\<close>

lemma exampleHub_store:
  "countFails exampleHub = False" "insertFails exampleHub = False"
  "updateFails exampleHub = False" "MessagesCollection exampleHub = []"
  "nextObjectID exampleHub = 1" "clock exampleHub = 0"
  by (simp_all add: exampleHub_def register_def emptyHub_def Let_def)

text \<open>
  C5. When both the content and the media reference of a message are empty,
  \<open>persistMessage\<close> returns the error and leaves the store as it was, and the ingest of
  such an envelope persists no record and enqueues no frame.
\<close>

theorem empty_message_rejected:
  assumes "InContent inm = []" and "MediaURL inm = []"
  shows "persistMessage chatID sender (InContent inm) (MediaURL inm) mediaType st
           = (Inl ErrEmptyContentAndMedia, st) \<and>
         (\<exists>st'. handleIncomingMessage client inm st = Return st' \<and>
            MessagesCollection st' = MessagesCollection st \<and> heap st' = heap st)"
  using assms
  by (simp add: persistMessage_def handleIncomingMessage_def Let_def logPrint_def
        split: sum.splits)

theorem empty_message_rejected_witness:
  "InContent (envelope ''message'' ''c1'' []) = [] \<and>
   MediaURL (envelope ''message'' ''c1'' []) = [] \<and>
   persistMessage ''c1'' ''u1'' [] [] [] exampleHub = (Inl ErrEmptyContentAndMedia, exampleHub) \<and>
   handleIncomingMessage 0 (envelope ''message'' ''c1'' []) exampleHub
     = Return (logPrint (WSPersistError ''u1'') exampleHub)"
proof -
  let ?inm = "envelope ''message'' ''c1'' []"
  have c: "InContent ?inm = []" and m: "MediaURL ?inm = []"
    by (simp_all add: envelope_def)
  have cnt: "CountDocuments exampleHub ''c1'' ''u1'' = Inr 1"
    by (simp add: CountDocuments_def exampleHub_simps exampleHub_store roomC1_def roomC2_def)
  have run: "handleIncomingMessage 0 ?inm exampleHub
      = Return (logPrint (WSPersistError ''u1'') exampleHub)"
    using cnt by (simp add: handleIncomingMessage_def Let_def exampleHub_queues envelope_def
        persistMessage_def)
  from empty_message_rejected[OF c m, of "''c1''" "''u1''" "[]" exampleHub 0]
  show ?thesis using c m run by simp
qed

text \<open>
  C6. When the sender is in the participant list of no chat with the target id, the
  ingest returns normally with the state unchanged but for one log entry: no record is
  persisted and no client's queue or transport is touched, the sender's included, so
  nothing is sent back to the sender.
\<close>

theorem nonmember_message_dropped:
  assumes "\<forall>c \<in> set (MereCollection st).
             ChatID c = InChatID inm \<longrightarrow> UserID (heap st client) \<notin> set (Participants c)"
  shows "\<exists>st'. handleIncomingMessage client inm st = Return st' \<and>
           MessagesCollection st' = MessagesCollection st \<and>
           heap st' = heap st \<and>
           (logs st' = logs st @ [WSUnauthorizedChatAccess (UserID (heap st client)) (InChatID inm)]
            \<or> logs st' = logs st @ [WSMembershipCheckFailed (UserID (heap st client))])"
proof -
  have "filter (\<lambda>c. ChatID c = InChatID inm \<and> UserID (heap st client) \<in> set (Participants c))
          (MereCollection st) = []"
    using assms by (auto simp: filter_empty_conv)
  then show ?thesis
    by (simp add: handleIncomingMessage_def CountDocuments_def Let_def logPrint_def)
qed

theorem nonmember_message_dropped_witness:
  "MereCollection exampleHub = [roomC1, roomC2] \<and> ChatID roomC1 \<noteq> ''c2'' \<and>
   ''u1'' \<notin> set (Participants roomC2) \<and>
   (\<exists>st'. handleIncomingMessage 0 (envelope ''message'' ''c2'' ''hi'') exampleHub = Return st' \<and>
      MessagesCollection st' = [] \<and> queue st' 1 = [] \<and> queue st' 0 = [] \<and>
      written (Conn (heap st' 0)) = [] \<and>
      logs st' = [WSUnauthorizedChatAccess ''u1'' ''c2''])"
proof -
  let ?inm = "envelope ''message'' ''c2'' ''hi''"
  have out: "\<forall>c \<in> set (MereCollection exampleHub).
      ChatID c = InChatID ?inm \<longrightarrow> UserID (heap exampleHub 0) \<notin> set (Participants c)"
    by (simp add: exampleHub_simps exampleHub_queues envelope_def roomC1_def roomC2_def)
  have cnt: "countFails exampleHub = False" and m0: "MessagesCollection exampleHub = []"
    by (simp_all add: exampleHub_store)
  from nonmember_message_dropped[OF out]
  obtain st' where run: "handleIncomingMessage 0 ?inm exampleHub = Return st'"
    and ms: "MessagesCollection st' = MessagesCollection exampleHub"
    and hp: "heap st' = heap exampleHub" by blast
  have lg: "logs st' = [WSUnauthorizedChatAccess ''u1'' ''c2'']"
    using run cnt by (auto simp: handleIncomingMessage_def CountDocuments_def Let_def
        logPrint_def exampleHub_simps exampleHub_queues envelope_def roomC1_def roomC2_def)
  have q: "queue st' 1 = []" "queue st' 0 = []" "written (Conn (heap st' 0)) = []"
    using hp by (simp_all add: queue_def exampleHub_simps)
  have rooms: "MereCollection exampleHub = [roomC1, roomC2]" "ChatID roomC1 \<noteq> ''c2''"
    "''u1'' \<notin> set (Participants roomC2)"
    by (simp_all add: exampleHub_simps roomC1_def roomC2_def)
  show ?thesis using rooms run ms m0 q lg
    by simp
qed

text \<open>
  C7. For a member sending a non-empty message while the membership query works: when
  the insert fails, the ingest ends with one log entry and the state otherwise
  unchanged, so nothing is persisted and nothing broadcast. When the insert succeeds and
  the update of the room's \<open>updatedAt\<close> fails, \<open>persistMessage\<close> still returns the
  message, stored under its new identifier, and the ingest is the broadcast of that
  message's payload to the room.
\<close>

theorem persistence_failures:
  assumes member: "\<exists>c \<in> set (MereCollection st).
             ChatID c = InChatID inm \<and> UserID (heap st client) \<in> set (Participants c)"
      and store_up: "\<not> countFails st"
      and nonempty: "InContent inm \<noteq> [] \<or> MediaURL inm \<noteq> []"
  shows "(insertFails st \<longrightarrow>
            handleIncomingMessage client inm st
              = Return (logPrint (WSPersistError (UserID (heap st client))) st)) \<and>
         (\<not> insertFails st \<and> updateFails st \<longrightarrow>
            (let msg = \<lparr>ID = nextObjectID st, MChatID = InChatID inm,
                        MUserID = UserID (heap st client), MContent = InContent inm,
                        MMedia = (if MediaURL inm \<noteq> [] \<and> MediaType inm \<noteq> []
                                  then Some \<lparr>URL = MediaURL inm, MType = MediaType inm\<rparr>
                                  else None),
                        MCreatedAt = clock st\<rparr>;
                 st1 = st\<lparr>MessagesCollection := MessagesCollection st @ [msg],
                          nextObjectID := Suc (nextObjectID st)\<rparr>
             in persistMessage (InChatID inm) (UserID (heap st client)) (InContent inm)
                  (MediaURL inm) (MediaType inm) st = (Inr msg, st1) \<and>
                handleIncomingMessage client inm st
                  = broadcastToChat (InChatID inm)
                      (MessagePayload (ID msg) (MUserID msg) (MContent msg) (MCreatedAt msg)
                         (MMedia msg) (MChatID msg)
                         (if ClientID inm \<noteq> [] then Some (ClientID inm) else None))
                      st1))"
proof -
  have cnt: "filter (\<lambda>c. ChatID c = InChatID inm \<and> UserID (heap st client) \<in> set (Participants c))
          (MereCollection st) \<noteq> []"
    using member by (auto simp: filter_empty_conv)
  have a: "handleIncomingMessage client inm st
              = Return (logPrint (WSPersistError (UserID (heap st client))) st)"
    if "insertFails st"
    using that cnt store_up nonempty
    by (auto simp: handleIncomingMessage_def CountDocuments_def Let_def persistMessage_def
        InsertOne_def)
  have b: "persistMessage (InChatID inm) (UserID (heap st client)) (InContent inm)
                  (MediaURL inm) (MediaType inm) st
       = (Inr \<lparr>ID = nextObjectID st, MChatID = InChatID inm,
                        MUserID = UserID (heap st client), MContent = InContent inm,
                        MMedia = (if MediaURL inm \<noteq> [] \<and> MediaType inm \<noteq> []
                                  then Some \<lparr>URL = MediaURL inm, MType = MediaType inm\<rparr>
                                  else None),
                        MCreatedAt = clock st\<rparr>,
          st\<lparr>MessagesCollection := MessagesCollection st @
               [\<lparr>ID = nextObjectID st, MChatID = InChatID inm,
                        MUserID = UserID (heap st client), MContent = InContent inm,
                        MMedia = (if MediaURL inm \<noteq> [] \<and> MediaType inm \<noteq> []
                                  then Some \<lparr>URL = MediaURL inm, MType = MediaType inm\<rparr>
                                  else None),
                        MCreatedAt = clock st\<rparr>],
                          nextObjectID := Suc (nextObjectID st)\<rparr>)"
    if "\<not> insertFails st" "updateFails st"
    using that nonempty
    by (auto simp: persistMessage_def InsertOne_def UpdateOne_def Let_def)
  have c: "handleIncomingMessage client inm st
      = (case persistMessage (InChatID inm) (UserID (heap st client)) (InContent inm)
                  (MediaURL inm) (MediaType inm) st of
               (Inl err, st1) \<Rightarrow> Return (logPrint (WSPersistError (UserID (heap st client))) st1)
             | (Inr msg, st1) \<Rightarrow>
                 broadcastToChat (InChatID inm)
                   (MessagePayload (ID msg) (MUserID msg) (MContent msg) (MCreatedAt msg)
                      (MMedia msg) (MChatID msg)
                      (if ClientID inm \<noteq> [] then Some (ClientID inm) else None))
                   st1)"
    using cnt store_up by (simp add: handleIncomingMessage_def CountDocuments_def Let_def)
  show ?thesis
  proof (intro conjI impI)
    assume "insertFails st" then show "handleIncomingMessage client inm st
              = Return (logPrint (WSPersistError (UserID (heap st client))) st)" by (rule a)
  next
    assume h: "\<not> insertFails st \<and> updateFails st"
    show "(let msg = \<lparr>ID = nextObjectID st, MChatID = InChatID inm,
                        MUserID = UserID (heap st client), MContent = InContent inm,
                        MMedia = (if MediaURL inm \<noteq> [] \<and> MediaType inm \<noteq> []
                                  then Some \<lparr>URL = MediaURL inm, MType = MediaType inm\<rparr>
                                  else None),
                        MCreatedAt = clock st\<rparr>;
                 st1 = st\<lparr>MessagesCollection := MessagesCollection st @ [msg],
                          nextObjectID := Suc (nextObjectID st)\<rparr>
             in persistMessage (InChatID inm) (UserID (heap st client)) (InContent inm)
                  (MediaURL inm) (MediaType inm) st = (Inr msg, st1) \<and>
                handleIncomingMessage client inm st
                  = broadcastToChat (InChatID inm)
                      (MessagePayload (ID msg) (MUserID msg) (MContent msg) (MCreatedAt msg)
                         (MMedia msg) (MChatID msg)
                         (if ClientID inm \<noteq> [] then Some (ClientID inm) else None))
                      st1)"
      unfolding Let_def c using b h by simp
  qed
qed

theorem persistence_failures_witness:
  "(\<exists>c \<in> set (MereCollection exampleHub). ChatID c = ''c1'' \<and> ''u1'' \<in> set (Participants c)) \<and>
   handleIncomingMessage 0 (envelope ''message'' ''c1'' ''hi'') (exampleHub\<lparr>insertFails := True\<rparr>)
     = Return (logPrint (WSPersistError ''u1'') (exampleHub\<lparr>insertFails := True\<rparr>)) \<and>
   (\<exists>st'. handleIncomingMessage 0 (envelope ''message'' ''c1'' ''hi'')
             (exampleHub\<lparr>updateFails := True\<rparr>) = Return st' \<and>
      queue st' 0 = [MessagePayload 1 ''u1'' ''hi'' 0 None ''c1'' None] \<and>
      queue st' 1 = [MessagePayload 1 ''u1'' ''hi'' 0 None ''c1'' None] \<and>
      map ID (MessagesCollection st') = [1] \<and> map MContent (MessagesCollection st') = [''hi''] \<and>
      MereCollection st' = [roomC1, roomC2])"
proof -
  let ?inm = "envelope ''message'' ''c1'' ''hi''"
  let ?A = "exampleHub\<lparr>insertFails := True\<rparr>"
  let ?B = "exampleHub\<lparr>updateFails := True\<rparr>"
  have mem: "\<exists>c \<in> set (MereCollection exampleHub). ChatID c = ''c1'' \<and> ''u1'' \<in> set (Participants c)"
    by (simp add: exampleHub_simps roomC1_def)
  have memA: "\<exists>c \<in> set (MereCollection ?A).
             ChatID c = InChatID ?inm \<and> UserID (heap ?A 0) \<in> set (Participants c)"
    using mem by (simp add: envelope_def exampleHub_queues)
  have memB: "\<exists>c \<in> set (MereCollection ?B).
             ChatID c = InChatID ?inm \<and> UserID (heap ?B 0) \<in> set (Participants c)"
    using mem by (simp add: envelope_def exampleHub_queues)
  have upA: "\<not> countFails ?A" and upB: "\<not> countFails ?B"
    by (simp_all add: exampleHub_store)
  have ne: "InContent ?inm \<noteq> [] \<or> MediaURL ?inm \<noteq> []"
    by (simp add: envelope_def)
  have failA: "insertFails ?A" by simp
  have failB: "\<not> insertFails ?B \<and> updateFails ?B" by (simp add: exampleHub_store)
  have ra: "handleIncomingMessage 0 ?inm ?A = Return (logPrint (WSPersistError ''u1'') ?A)"
    using persistence_failures[OF memA upA ne] failA by (simp add: exampleHub_queues)
  let ?p = "MessagePayload 1 ''u1'' ''hi'' 0 None ''c1'' None"
  let ?st1 = "?B\<lparr>MessagesCollection := [\<lparr>ID = 1, MChatID = ''c1'', MUserID = ''u1'',
                 MContent = ''hi'', MMedia = None, MCreatedAt = 0\<rparr>],
                 nextObjectID := Suc (Suc 0)\<rparr>"
  have rb: "handleIncomingMessage 0 ?inm ?B = broadcastToChat ''c1'' ?p ?st1"
    using persistence_failures[OF memB upB ne] failB
    by (simp add: Let_def exampleHub_queues exampleHub_store envelope_def)
  have bc: "broadcastToChat ''c1'' ?p ?st1
      = Return (setSend 1 \<lparr>buf = [?p], cap = sendQueueSize, closed = False\<rparr>
                 (setSend 0 \<lparr>buf = [?p], cap = sendQueueSize, closed = False\<rparr> ?st1))"
    by (simp add: broadcastToChat_eq FindOne_def resolveTargets_def lookup_def roomC1_def
        trySend_def setSend_def exampleHub_simps sendQueueSize_def)
  note run = trans[OF rb bc]
  let ?st2 = "setSend 1 \<lparr>buf = [?p], cap = sendQueueSize, closed = False\<rparr>
                 (setSend 0 \<lparr>buf = [?p], cap = sendQueueSize, closed = False\<rparr> ?st1)"
  have obs: "queue ?st2 0 = [?p]" "queue ?st2 1 = [?p]"
    "map ID (MessagesCollection ?st2) = [1]" "map MContent (MessagesCollection ?st2) = [''hi'']"
    "MereCollection ?st2 = [roomC1, roomC2]"
    by (simp_all add: setSend_def queue_def exampleHub_simps)
  have "\<exists>st'. handleIncomingMessage 0 ?inm ?B = Return st' \<and>
      queue st' 0 = [?p] \<and> queue st' 1 = [?p] \<and>
      map ID (MessagesCollection st') = [1] \<and> map MContent (MessagesCollection st') = [''hi''] \<and>
      MereCollection st' = [roomC1, roomC2]"
    using run obs by (intro exI[of _ ?st2] conjI)
  then show ?thesis
    using mem ra by blast
qed

subsection \<open>Unknown envelopes\<close>

text \<open>
  C8. An envelope whose type is none of \<open>message\<close>, \<open>typing\<close> and \<open>presence\<close> is logged
  and otherwise ignored: the dispatch returns normally, the state is unchanged but for
  the log entry (no queue receives a frame), and the reader loop goes on with the next
  read.
\<close>

theorem unknown_type_ignored:
  assumes "Type inm \<noteq> ''message''" and "Type inm \<noteq> ''typing''" and "Type inm \<noteq> ''presence''"
  shows "\<exists>st'. dispatch client inm st = Return st' \<and>
           st' = st\<lparr>logs := logs st @ [WSUnknownType (UserID (heap st client)) (Type inm)]\<rparr> \<and>
           readerLoop client (Some inm # rest) st = readerLoop client rest st'"
  using assms by (simp add: dispatch_def logPrint_def)

theorem unknown_type_ignored_witness:
  "Type (envelope ''ping'' [] []) \<noteq> ''message'' \<and> Type (envelope ''ping'' [] []) \<noteq> ''typing'' \<and>
   Type (envelope ''ping'' [] []) \<noteq> ''presence'' \<and>
   dispatch 0 (envelope ''ping'' [] []) exampleHub
     = Return (exampleHub\<lparr>logs := [WSUnknownType ''u1'' ''ping'']\<rparr>) \<and>
   readerLoop 0 [Some (envelope ''ping'' [] []), Some (envelope ''presence'' [] [])] exampleHub
     = readerLoop 0 [Some (envelope ''presence'' [] [])]
         (exampleHub\<lparr>logs := [WSUnknownType ''u1'' ''ping'']\<rparr>)"
proof -
  let ?inm = "envelope ''ping'' [] []"
  have t1: "Type ?inm \<noteq> ''message''" and t2: "Type ?inm \<noteq> ''typing''"
    and t3: "Type ?inm \<noteq> ''presence''"
    by (simp_all add: envelope_def)
  have ty: "Type ?inm = ''ping''" by (simp add: envelope_def)
  from unknown_type_ignored[OF t1 t2 t3, of 0 exampleHub "[Some (envelope ''presence'' [] [])]"]
  show ?thesis using t1 t2 t3 by (simp add: ty exampleHub_queues exampleHub_simps)
qed

subsection \<open>Timeouts\<close>

text \<open>
  C9. The liveness deadline \<open>pongWait\<close> is 60 seconds, twice the heartbeat interval
  \<open>pingPeriod\<close> of 30 seconds, so it exceeds the interval by a full interval. The pong
  handler sets the read deadline to now plus \<open>pongWait\<close>; each write of the writer
  goroutine and each ping of the heartbeat is made under a deadline of now plus
  \<open>writeTimeout\<close>, 10 seconds.
\<close>

theorem timeout_relationship:
  "pongWait = 60 * Second \<and> pingPeriod = 30 * Second \<and> writeTimeout = 10 * Second \<and>
   pongWait = 2 * pingPeriod \<and> pingPeriod < pongWait \<and> pingPeriod \<le> pongWait - pingPeriod \<and>
   readDeadline (Conn (heap (pongHandler a st) a)) = clock st + pongWait \<and>
   pingDeadline st = clock st + writeTimeout \<and>
   writeDeadline (Conn (heap (heartbeatTick a ok st) a)) = clock st + writeTimeout \<and>
   writeDeadline (Conn (heap (writerStep a ok st) a))
     = (if queue st a = [] then writeDeadline (Conn (heap st a)) else clock st + writeTimeout)"
  by (simp add: pongWait_def pingPeriod_def writeTimeout_def Second_def pongHandler_def
      setReadDeadline_def setWriteDeadline_def setConn_def setSend_def connClose_def
      pingDeadline_def heartbeatTick_def writerStep_def queue_def logPrint_def Let_def
      split: list.splits)

end
